theory Spec2Isabelle
  imports Main "HOL-Library.Word" "HOL-Library.Multiset"
begin

unbundle bit_operations_syntax

section \<open>Heuristic descriptor (heuristic.go)\<close>

text \<open>
  \<^verbatim>\<open>type Heuristic uint16\<close>: a bit field with the algorithm in the low nibble, the bin
  selection method in the second nibble and the split method in the third one.
\<close>

type_synonym Heuristic = "16 word"

definition MaxRects :: Heuristic where "MaxRects = 0x0"
definition Skyline :: Heuristic where "Skyline = 0x1"
definition Guillotine :: Heuristic where "Guillotine = 0x2"

definition BestShortSideFit :: Heuristic where "BestShortSideFit = 0x00"
definition BestLongSideFit :: Heuristic where "BestLongSideFit = 0x10"
definition BestAreaFit :: Heuristic where "BestAreaFit = 0x20"
definition BottomLeft :: Heuristic where "BottomLeft = 0x30"
definition ContactPoint :: Heuristic where "ContactPoint = 0x40"
definition WorstAreaFit :: Heuristic where "WorstAreaFit = 0x50"
definition WorstShortSideFit :: Heuristic where "WorstShortSideFit = 0x60"
definition WorstLongSideFit :: Heuristic where "WorstLongSideFit = 0x70"
definition MinWaste :: Heuristic where "MinWaste = 0x80"

definition SplitShorterLeftoverAxis :: Heuristic where "SplitShorterLeftoverAxis = 0x0000"
definition SplitLongerLeftoverAxis :: Heuristic where "SplitLongerLeftoverAxis = 0x0100"
definition SplitMinimizeArea :: Heuristic where "SplitMinimizeArea = 0x0200"
definition SplitMaximizeArea :: Heuristic where "SplitMaximizeArea = 0x0300"
definition SplitShorterAxis :: Heuristic where "SplitShorterAxis = 0x0400"
definition SplitLongerAxis :: Heuristic where "SplitLongerAxis = 0x0500"

definition typeMask :: Heuristic where "typeMask = 0x000F"
definition fitMask :: Heuristic where "fitMask = 0x00F0"
definition splitMask :: Heuristic where "splitMask = 0x0F00"

definition GuillotineBAF :: Heuristic where "GuillotineBAF = Guillotine OR BestAreaFit"
definition GuillotineWAF :: Heuristic where "GuillotineWAF = Guillotine OR WorstAreaFit"
definition GuillotineWSSF :: Heuristic where "GuillotineWSSF = Guillotine OR WorstShortSideFit"
definition GuillotineWLSF :: Heuristic where "GuillotineWLSF = Guillotine OR WorstLongSideFit"
definition MaxRectsBSSF :: Heuristic where "MaxRectsBSSF = MaxRects OR BestShortSideFit"
definition SkylineMinWaste :: Heuristic where "SkylineMinWaste = Skyline OR MinWaste"

lemmas heuristic_defs =
  MaxRects_def Skyline_def Guillotine_def
  BestShortSideFit_def BestLongSideFit_def BestAreaFit_def BottomLeft_def ContactPoint_def
  WorstAreaFit_def WorstShortSideFit_def WorstLongSideFit_def MinWaste_def
  SplitShorterLeftoverAxis_def SplitLongerLeftoverAxis_def SplitMinimizeArea_def
  SplitMaximizeArea_def SplitShorterAxis_def SplitLongerAxis_def
  typeMask_def fitMask_def splitMask_def

text \<open>The three error values of heuristic.go; \<^verbatim>\<open>nil\<close> is \<open>None\<close>.\<close>

datatype error = algoErr | splitErr | binErr

text \<open>
  \<^verbatim>\<open>func (e Heuristic) Validate() error\<close>, with the source's switch order: the algorithm
  first, then (for Guillotine) the split method, then the bin method, whose default
  branch returns \<^verbatim>\<open>splitErr\<close> in the Guillotine case.
\<close>

definition Validate :: "Heuristic \<Rightarrow> error option" where
  "Validate e =
     (let bin = e AND fitMask; split = e AND splitMask; ty = e AND typeMask in
      if ty = MaxRects then
        (if split \<noteq> 0 then Some splitErr
         else if bin \<in> {BestShortSideFit, BestAreaFit, BottomLeft, ContactPoint, BestLongSideFit}
           then None else Some binErr)
      else if ty = Skyline then
        (if split \<noteq> 0 then Some splitErr
         else if bin \<in> {BottomLeft, MinWaste} then None else Some binErr)
      else if ty = Guillotine then
        (if split \<notin> {SplitShorterLeftoverAxis, SplitLongerLeftoverAxis, SplitMinimizeArea,
                       SplitMaximizeArea, SplitShorterAxis, SplitLongerAxis}
           then Some splitErr
         else if bin \<in> {BestShortSideFit, BottomLeft, ContactPoint, BestLongSideFit, BestAreaFit}
           then None else Some splitErr)
      else Some algoErr)"

section \<open>Geometry primitives (geometry.go)\<close>

text \<open>
  Go's \<^verbatim>\<open>int\<close> is modelled by \<^typ>\<open>int\<close>: the development describes the executions in
  which no coordinate, area or score leaves the 64-bit range. \<open>MaxInt\<close> and \<open>MinInt\<close> are
  \<^verbatim>\<open>math.MaxInt\<close> and \<^verbatim>\<open>math.MinInt\<close>.
\<close>

definition MaxInt :: int where "MaxInt = 9223372036854775807"
definition MinInt :: int where "MinInt = - 9223372036854775808"

text \<open>
  \<^verbatim>\<open>type skylineNode struct { X, Y, Width int }\<close> of skyline.go. It is declared here,
  before \<^verbatim>\<open>Size\<close> and \<^verbatim>\<open>Rect\<close>, whose fields have the same names: the fields of a node are
  written \<open>skylineNode.X\<close>, \<open>skylineNode.Y\<close> and \<open>skylineNode.Width\<close>, and the plain
  names are those of \<^verbatim>\<open>Rect\<close> and \<^verbatim>\<open>Size\<close>.
\<close>

record skylineNode =
  X :: int
  Y :: int
  Width :: int

record Size =
  Width :: int
  Height :: int
  ID :: int

text \<open>
  \<^verbatim>\<open>type Rect struct { Point; Size; Flipped bool }\<close>. The embedded \<^verbatim>\<open>Size\<close> is the parent
  record, so that its fields are promoted as in Go; the fields of the embedded
  \<^verbatim>\<open>Point\<close> are \<open>X\<close> and \<open>Y\<close>.
\<close>

record Rect = Size +
  X :: int
  Y :: int
  Flipped :: bool

definition NewSize :: "int \<Rightarrow> int \<Rightarrow> Size" where
  "NewSize w h = \<lparr>Width = w, Height = h, ID = 0\<rparr>"

definition NewSizeID :: "int \<Rightarrow> int \<Rightarrow> int \<Rightarrow> Size" where
  "NewSizeID i w h = \<lparr>Width = w, Height = h, ID = i\<rparr>"

definition NewRect :: "int \<Rightarrow> int \<Rightarrow> int \<Rightarrow> int \<Rightarrow> Rect" where
  "NewRect x y w h = \<lparr>Width = w, Height = h, ID = 0, X = x, Y = y, Flipped = False\<rparr>"

text \<open>The zero value of \<^verbatim>\<open>Rect\<close> (\<^verbatim>\<open>var bestNode Rect\<close>).\<close>

definition zeroRect :: Rect where
  "zeroRect = \<lparr>Width = 0, Height = 0, ID = 0, X = 0, Y = 0, Flipped = False\<rparr>"

text \<open>\<^verbatim>\<open>rect.Size\<close>: the embedded size of a rectangle, with its ID.\<close>

definition Rect_Size :: "Rect \<Rightarrow> Size" where
  "Rect_Size r = \<lparr>Width = Width r, Height = Height r, ID = ID r\<rparr>"

definition Area :: "'a Size_scheme \<Rightarrow> int" where
  "Area sz = Width sz * Height sz"

definition Right :: "Rect \<Rightarrow> int" where
  "Right r = X r + Width r"

definition Bottom :: "Rect \<Rightarrow> int" where
  "Bottom r = Y r + Height r"

definition ContainsRect :: "Rect \<Rightarrow> Rect \<Rightarrow> bool" where
  "ContainsRect r rect \<longleftrightarrow>
     X r \<le> X rect \<and> X rect + Width rect \<le> X r + Width r \<and>
     Y r \<le> Y rect \<and> Y rect + Height rect \<le> Y r + Height r"

definition Intersects :: "Rect \<Rightarrow> Rect \<Rightarrow> bool" where
  "Intersects r rect \<longleftrightarrow>
     X rect < X r + Width r \<and> X r < X rect + Width rect \<and>
     Y rect < Y r + Height r \<and> Y r < Y rect + Height rect"

definition Intersect :: "Rect \<Rightarrow> Rect \<Rightarrow> Rect" where
  "Intersect r rect =
     (let x1 = max (X r) (X rect);
          x2 = min (X r + Width r) (X rect + Width rect);
          y1 = max (Y r) (Y rect);
          y2 = min (Y r + Height r) (Y rect + Height rect)
      in if x2 \<ge> x1 \<and> y2 \<ge> y1
         then zeroRect\<lparr>X := x1, Y := y1, Width := x2 - x1, Height := y2 - y1\<rparr>
         else zeroRect)"

section \<open>Library functions of Go's \<^verbatim>\<open>slices\<close> package\<close>

text \<open>
  \<^verbatim>\<open>slices.Delete(s, i, j)\<close> removes \<^verbatim>\<open>s[i:j]\<close>; \<^verbatim>\<open>slices.Insert(s, i, v)\<close> puts \<open>v\<close> at
  index \<open>i\<close>. Both panic out of range; every call below is made with
  \<open>i < length s\<close> (respectively \<open>i \<le> length s\<close>), which the callers' loop guards give.
\<close>

definition slices_Delete :: "'a list \<Rightarrow> nat \<Rightarrow> nat \<Rightarrow> 'a list" where
  "slices_Delete s i j = take i s @ drop j s"

definition slices_Insert :: "'a list \<Rightarrow> nat \<Rightarrow> 'a \<Rightarrow> 'a list" where
  "slices_Insert s i v = take i s @ v # drop i s"

section \<open>Shared algorithm state (algorithm.go)\<close>

record algorithmBase =
  packed :: "Rect list"
  maxWidth :: int
  maxHeight :: int
  usedArea :: int
  allowFlip :: bool
  padding :: int

text \<open>The setters \<^verbatim>\<open>AllowFlip\<close> and \<^verbatim>\<open>Padding\<close> of the base.\<close>

definition algorithmBase_AllowFlip :: "bool \<Rightarrow> 'a algorithmBase_scheme \<Rightarrow> 'a algorithmBase_scheme" where
  "algorithmBase_AllowFlip enabled p = p\<lparr>allowFlip := enabled\<rparr>"

definition algorithmBase_Padding :: "int \<Rightarrow> 'a algorithmBase_scheme \<Rightarrow> 'a algorithmBase_scheme" where
  "algorithmBase_Padding pad p = p\<lparr>padding := pad\<rparr>"

text \<open>A Go panic is a value: \<^verbatim>\<open>Reset\<close> panics on a non-positive extent, and reading a
  slice out of range panics at run time.\<close>

datatype panic = ResetPanic | IndexPanic | AlgorithmPanic

definition abs_int :: "int \<Rightarrow> int" where
  "abs_int x = (if x \<ge> 0 then x else - x)"

text \<open>\<^verbatim>\<open>padSize\<close> and \<^verbatim>\<open>unpadRect\<close> mutate through a pointer; the models return the new value.\<close>

definition padSize :: "Size \<Rightarrow> int \<Rightarrow> Size" where
  "padSize sz pad =
     (if pad \<le> 0 then sz
      else sz\<lparr>Width := Width sz + pad, Height := Height sz + pad\<rparr>)"

definition unpadRect :: "Rect \<Rightarrow> int \<Rightarrow> Rect" where
  "unpadRect rect pad =
     (if pad \<le> 0 then rect
      else
        let r1 = (if X rect = 0
                  then rect\<lparr>X := X rect + pad, Width := Width rect - pad * 2\<rparr>
                  else rect\<lparr>Width := Width rect - pad\<rparr>)
        in (if Y r1 = 0
            then r1\<lparr>Y := Y r1 + pad, Height := Height r1 - pad * 2\<rparr>
            else r1\<lparr>Height := Height r1 - pad\<rparr>))"

section \<open>Guillotine engine (guillotine.go)\<close>

text \<open>
  \<^verbatim>\<open>scoreRect\<close> is a function-valued field that \<^verbatim>\<open>newGuillotine\<close> sets to one of six
  functions; the model stores which one and applies it with \<open>apply_scoreFunc\<close>.
\<close>

datatype scoreFunc =
  ScoreBestArea | ScoreBestShort | ScoreBestLong | ScoreWorstArea | ScoreWorstShort | ScoreWorstLong

record guillotinePack = algorithmBase +
  Merge :: bool
  splitMethod :: Heuristic
  scoreRect :: scoreFunc
  freeRects :: "Rect list"

definition scoreBestArea :: "int \<Rightarrow> int \<Rightarrow> Rect \<Rightarrow> int" where
  "scoreBestArea w h freeRect = Width freeRect * Height freeRect - w * h"

definition scoreBestShort :: "int \<Rightarrow> int \<Rightarrow> Rect \<Rightarrow> int" where
  "scoreBestShort w h freeRect =
     (let leftoverHoriz = abs_int (Width freeRect - w);
          leftoverVert = abs_int (Height freeRect - h)
      in min leftoverHoriz leftoverVert)"

definition scoreBestLong :: "int \<Rightarrow> int \<Rightarrow> Rect \<Rightarrow> int" where
  "scoreBestLong w h freeRect =
     (let leftoverHoriz = abs_int (Width freeRect - w);
          leftoverVert = abs_int (Height freeRect - h)
      in max leftoverHoriz leftoverVert)"

fun apply_scoreFunc :: "scoreFunc \<Rightarrow> int \<Rightarrow> int \<Rightarrow> Rect \<Rightarrow> int" where
  "apply_scoreFunc ScoreBestArea w h r = scoreBestArea w h r"
| "apply_scoreFunc ScoreBestShort w h r = scoreBestShort w h r"
| "apply_scoreFunc ScoreBestLong w h r = scoreBestLong w h r"
| "apply_scoreFunc ScoreWorstArea w h r = - scoreBestArea w h r"
| "apply_scoreFunc ScoreWorstShort w h r = - scoreBestShort w h r"
| "apply_scoreFunc ScoreWorstLong w h r = - scoreBestLong w h r"

subsection \<open>mergeFreeList\<close>

text \<open>
  The inner loop of \<^verbatim>\<open>mergeFreeList\<close> at indices \<open>i < j\<close>. Every comparison of the source
  reads \<^verbatim>\<open>p.freeRects[i]\<close> on both sides, and so does the model. A deletion is followed by
  \<^verbatim>\<open>j--\<close> and the loop's \<^verbatim>\<open>j++\<close>, which leaves \<open>j\<close> where it is.
\<close>

function mergeFreeList_inner :: "nat \<Rightarrow> nat \<Rightarrow> Rect list \<Rightarrow> Rect list" where
  "mergeFreeList_inner i j fr =
     (if j < length fr then
        (if Width (fr ! i) = Width (fr ! i) \<and> X (fr ! i) = X (fr ! i) then
           (if Y (fr ! i) = Y (fr ! i) + Height (fr ! i) then
              (let fr1 = fr[i := (fr ! i)\<lparr>Y := Y (fr ! i) - Height (fr ! i)\<rparr>];
                   fr2 = fr1[i := (fr1 ! i)\<lparr>Height := Height (fr1 ! i) + Height (fr1 ! i)\<rparr>]
               in mergeFreeList_inner i j (slices_Delete fr2 j (j + 1)))
            else if Y (fr ! i) + Height (fr ! i) = Y (fr ! i) then
              (let fr1 = fr[i := (fr ! i)\<lparr>Height := Height (fr ! i) + Height (fr ! i)\<rparr>]
               in mergeFreeList_inner i j (slices_Delete fr1 j (j + 1)))
            else mergeFreeList_inner i (j + 1) fr)
         else if Height (fr ! i) = Height (fr ! i) \<and> Y (fr ! i) = Y (fr ! i) then
           (if X (fr ! i) = X (fr ! i) + Width (fr ! i) then
              (let fr1 = fr[i := (fr ! i)\<lparr>X := X (fr ! i) - Width (fr ! i)\<rparr>];
                   fr2 = fr1[i := (fr1 ! i)\<lparr>Width := Width (fr1 ! i) + Width (fr1 ! i)\<rparr>]
               in mergeFreeList_inner i j (slices_Delete fr2 j (j + 1)))
            else if X (fr ! i) + Width (fr ! i) = X (fr ! i) then
              (let fr1 = fr[i := (fr ! i)\<lparr>Width := Width (fr ! i) + Width (fr ! i)\<rparr>]
               in mergeFreeList_inner i j (slices_Delete fr1 j (j + 1)))
            else mergeFreeList_inner i (j + 1) fr)
         else mergeFreeList_inner i (j + 1) fr)
      else fr)"
  by pat_completeness auto
termination
  by (relation "measure (\<lambda>(i, j, fr). length fr - j)") (auto simp: slices_Delete_def)

declare mergeFreeList_inner.simps [simp del]

lemma mergeFreeList_inner_length: "length (mergeFreeList_inner i j fr) \<le> length fr"
proof (induction i j fr rule: mergeFreeList_inner.induct)
  case (1 i j fr)
  show ?case
  proof (cases "j < length fr")
    case False
    then show ?thesis by (subst mergeFreeList_inner.simps) simp
  next
    case True
    show ?thesis
    proof (cases "Y (fr ! i) = Y (fr ! i) + Height (fr ! i)")
      case True
      with \<open>j < length fr\<close> 1(1) show ?thesis
        by (subst mergeFreeList_inner.simps) (fastforce simp: Let_def slices_Delete_def)
    next
      case False
      with \<open>j < length fr\<close> 1(3) show ?thesis
        by (subst mergeFreeList_inner.simps) (simp add: Let_def)
    qed
  qed
qed

text \<open>The outer loop: \<^verbatim>\<open>for i := 0; i < len(p.freeRects); i++\<close>.\<close>

function mergeFreeList_outer :: "nat \<Rightarrow> Rect list \<Rightarrow> Rect list" where
  "mergeFreeList_outer i fr =
     (if i < length fr then mergeFreeList_outer (i + 1) (mergeFreeList_inner i (i + 1) fr)
      else fr)"
  by pat_completeness auto
termination
proof (relation "measure (\<lambda>(i, fr). length fr - i)")
  show "wf (measure (\<lambda>(i, fr). length fr - i))" by simp
next
  fix i :: nat and fr :: "Rect list"
  assume "i < length fr"
  moreover have "length (mergeFreeList_inner i (i + 1) fr) \<le> length fr"
    by (rule mergeFreeList_inner_length)
  ultimately show "((i + 1, mergeFreeList_inner i (i + 1) fr), (i, fr))
      \<in> measure (\<lambda>(i, fr). length fr - i)"
    by simp
qed

declare mergeFreeList_outer.simps [simp del]

definition mergeFreeList :: "guillotinePack \<Rightarrow> guillotinePack" where
  "mergeFreeList p = p\<lparr>freeRects := mergeFreeList_outer 0 (freeRects p)\<rparr>"

text \<open>
  Since every test compares a rectangle with itself, a deletion happens only when the
  rectangle at \<open>i\<close> has height 0; on a list of rectangles of non-zero height the
  function changes nothing.
\<close>

lemma mergeFreeList_inner_id: "\<forall>r\<in>set fr. Height r \<noteq> 0 \<Longrightarrow> i < j \<Longrightarrow> mergeFreeList_inner i j fr = fr"
proof (induction i j fr rule: mergeFreeList_inner.induct)
  case (1 i j fr)
  show ?case
  proof (cases "j < length fr")
    case False
    then show ?thesis by (subst mergeFreeList_inner.simps) simp
  next
    case True
    with "1.prems"(2) have "fr ! i \<in> set fr" by simp
    with "1.prems"(1) have h: "Height (fr ! i) \<noteq> 0" by blast
    have "mergeFreeList_inner i (j + 1) fr = fr"
      using "1.IH"(3)[OF True] h "1.prems" by simp
    with True h show ?thesis
      by (subst mergeFreeList_inner.simps) simp
  qed
qed
lemma mergeFreeList_outer_id: "\<forall>r\<in>set fr. Height r \<noteq> 0 \<Longrightarrow> mergeFreeList_outer i fr = fr"
proof (induction i fr rule: mergeFreeList_outer.induct)
  case (1 i fr)
  then show ?case
    by (subst mergeFreeList_outer.simps) (simp add: mergeFreeList_inner_id)
qed

lemma mergeFreeList_id:
  "\<forall>r\<in>set (freeRects p). Height r \<noteq> 0 \<Longrightarrow> mergeFreeList p = p"
  by (simp add: mergeFreeList_def mergeFreeList_outer_id)

subsection \<open>Reset and construction\<close>

text \<open>\<^verbatim>\<open>algorithmBase.Reset\<close>, promoted to every engine that embeds the base.\<close>

definition algorithmBase_Reset ::
  "int \<Rightarrow> int \<Rightarrow> 'a algorithmBase_scheme \<Rightarrow> panic + 'a algorithmBase_scheme" where
  "algorithmBase_Reset w h p =
     (if w \<le> 0 \<or> h \<le> 0 then Inl ResetPanic
      else Inr (p\<lparr>maxWidth := w, maxHeight := h, usedArea := 0, packed := []\<rparr>))"

definition guillotine_Reset :: "int \<Rightarrow> int \<Rightarrow> guillotinePack \<Rightarrow> panic + guillotinePack" where
  "guillotine_Reset w h p =
     (case algorithmBase_Reset w h p of
        Inl e \<Rightarrow> Inl e
      | Inr p1 \<Rightarrow> Inr (p1\<lparr>freeRects := [NewRect 0 0 (maxWidth p1) (maxHeight p1)]\<rparr>))"

definition guillotine_zero :: guillotinePack where
  "guillotine_zero =
     \<lparr>packed = [], maxWidth = 0, maxHeight = 0, usedArea = 0, allowFlip = False, padding = 0,
      Merge = False, splitMethod = 0, scoreRect = ScoreBestArea, freeRects = []\<rparr>"

definition newGuillotine :: "int \<Rightarrow> int \<Rightarrow> Heuristic \<Rightarrow> panic + guillotinePack" where
  "newGuillotine w h heuristic =
     (let p0 = guillotine_zero\<lparr>Merge := True, splitMethod := SplitMinimizeArea\<rparr>;
          fit = heuristic AND fitMask;
          p1 = p0\<lparr>scoreRect :=
                 (if fit = BestShortSideFit then ScoreBestShort
                  else if fit = BestLongSideFit then ScoreBestLong
                  else if fit = WorstAreaFit then ScoreWorstArea
                  else if fit = WorstShortSideFit then ScoreWorstShort
                  else if fit = WorstLongSideFit then ScoreWorstLong
                  else ScoreBestArea)\<rparr>;
          p2 = p1\<lparr>splitMethod := heuristic AND splitMask\<rparr>
      in guillotine_Reset w h p2)"

subsection \<open>Splitting the chosen free rectangle\<close>

definition splitAlongAxis :: "Rect \<Rightarrow> Rect \<Rightarrow> bool \<Rightarrow> guillotinePack \<Rightarrow> guillotinePack" where
  "splitAlongAxis freeRect placedRect splitHorizontal p =
     (let bottom0 = zeroRect\<lparr>X := X freeRect, Y := Y freeRect + Height placedRect,
                              Height := Height freeRect - Height placedRect\<rparr>;
          right0 = zeroRect\<lparr>X := X freeRect + Width placedRect, Y := Y freeRect,
                             Width := Width freeRect - Width placedRect\<rparr>;
          bottom = (if splitHorizontal then bottom0\<lparr>Width := Width freeRect\<rparr>
                    else bottom0\<lparr>Width := Width placedRect\<rparr>);
          right = (if splitHorizontal then right0\<lparr>Height := Height placedRect\<rparr>
                   else right0\<lparr>Height := Height freeRect\<rparr>);
          p1 = (if Width bottom > 0 \<and> Height bottom > 0
                then p\<lparr>freeRects := freeRects p @ [bottom]\<rparr> else p)
      in (if Width right > 0 \<and> Height right > 0
          then p1\<lparr>freeRects := freeRects p1 @ [right]\<rparr> else p1))"

definition splitByHeuristic :: "Rect \<Rightarrow> Rect \<Rightarrow> guillotinePack \<Rightarrow> guillotinePack" where
  "splitByHeuristic freeRect placedRect p =
     (let w = Width freeRect - Width placedRect;
          h = Height freeRect - Height placedRect;
          splitHorizontal =
            (if splitMethod p = SplitShorterLeftoverAxis then w \<le> h
             else if splitMethod p = SplitLongerLeftoverAxis then w > h
             else if splitMethod p = SplitMinimizeArea
               then Width placedRect * h > w * Height placedRect
             else if splitMethod p = SplitMaximizeArea
               then Width placedRect * h \<le> w * Height placedRect
             else if splitMethod p = SplitShorterAxis then Width freeRect \<le> Height freeRect
             else if splitMethod p = SplitLongerAxis then Width freeRect > Height freeRect
             else True)
      in splitAlongAxis freeRect placedRect splitHorizontal p)"

subsection \<open>Insert\<close>

text \<open>
  The best choice so far: \<^verbatim>\<open>bestFreeRect\<close>, \<^verbatim>\<open>bestRect\<close>, \<^verbatim>\<open>bestFlipped\<close>, \<^verbatim>\<open>bestScore\<close>.
\<close>

type_synonym guillotineBest = "nat \<times> nat \<times> bool \<times> int"

text \<open>
  The loop over the sizes (index \<open>j\<close>) for the free rectangle \<open>freeRect\<close> of index \<open>i\<close>.
  The size tested is the local copy that \<^verbatim>\<open>padSize\<close> has inflated. A perfect match
  ends this loop with \<^verbatim>\<open>break\<close>.
\<close>

fun guillotine_scanSizes ::
  "guillotinePack \<Rightarrow> int \<Rightarrow> nat \<Rightarrow> Rect \<Rightarrow> nat \<Rightarrow> Size list \<Rightarrow> guillotineBest \<Rightarrow> guillotineBest"
  where
  "guillotine_scanSizes p pad i freeRect j [] best = best"
| "guillotine_scanSizes p pad i freeRect j (s # rest) (bestFreeRect, bestRect, bestFlipped, bestScore) =
     (let sz = padSize s pad in
      if Width sz = Width freeRect \<and> Height sz = Height freeRect then (i, j, False, MinInt)
      else if allowFlip p \<and> Height sz = Width freeRect \<and> Width sz = Height freeRect
        then (i, j, True, MinInt)
      else if Width sz \<le> Width freeRect \<and> Height sz \<le> Height freeRect then
        (let score = apply_scoreFunc (scoreRect p) (Width sz) (Height sz) freeRect in
         guillotine_scanSizes p pad i freeRect (j + 1) rest
           (if score < bestScore then (i, j, False, score)
            else (bestFreeRect, bestRect, bestFlipped, bestScore)))
      else if allowFlip p \<and> Height sz \<le> Width freeRect \<and> Width sz \<le> Height freeRect then
        (let score = apply_scoreFunc (scoreRect p) (Height sz) (Width sz) freeRect in
         guillotine_scanSizes p pad i freeRect (j + 1) rest
           (if score < bestScore then (i, j, True, score)
            else (bestFreeRect, bestRect, bestFlipped, bestScore)))
      else guillotine_scanSizes p pad i freeRect (j + 1) rest
             (bestFreeRect, bestRect, bestFlipped, bestScore))"

text \<open>
  The loop over the free rectangles. The assignment \<^verbatim>\<open>i = len(p.freeRects)\<close> made on a
  perfect match changes the loop variable of a \<^verbatim>\<open>range\<close> loop, which does not end the
  iteration: the remaining free rectangles are still visited.
\<close>

fun guillotine_scanFree ::
  "guillotinePack \<Rightarrow> int \<Rightarrow> Size list \<Rightarrow> nat \<Rightarrow> Rect list \<Rightarrow> guillotineBest \<Rightarrow> guillotineBest"
  where
  "guillotine_scanFree p pad sizes i [] best = best"
| "guillotine_scanFree p pad sizes i (freeRect # rest) best =
     guillotine_scanFree p pad sizes (i + 1) rest
       (guillotine_scanSizes p pad i freeRect 0 sizes best)"

text \<open>The rectangle placed: the origin of the free rectangle and the size as it was passed
  in (not the inflated copy), flipped when the flipped orientation won.\<close>

definition guillotine_newNode :: "Rect \<Rightarrow> Size \<Rightarrow> bool \<Rightarrow> Rect" where
  "guillotine_newNode freeRect sz bestFlipped =
     (let newNode = \<lparr>Width = Width sz, Height = Height sz, ID = ID sz,
                     X = X freeRect, Y = Y freeRect, Flipped = False\<rparr>
      in if bestFlipped
         then newNode\<lparr>Width := Height newNode, Height := Width newNode, Flipped := True\<rparr>
         else newNode)"

text \<open>The body of one round of \<^verbatim>\<open>Insert\<close> after a choice was made.\<close>

definition guillotine_place :: "int \<Rightarrow> nat \<Rightarrow> Rect \<Rightarrow> guillotinePack \<Rightarrow> guillotinePack" where
  "guillotine_place pad bestFreeRect newNode p =
     (let p1 = splitByHeuristic (freeRects p ! bestFreeRect) newNode p;
          p2 = p1\<lparr>freeRects := slices_Delete (freeRects p1) bestFreeRect (bestFreeRect + 1)\<rparr>;
          p3 = (if Merge p2 then mergeFreeList p2 else p2);
          p4 = p3\<lparr>usedArea := usedArea p3 + Area newNode\<rparr>
      in p4\<lparr>packed := packed p4 @ [unpadRect newNode pad]\<rparr>)"

text \<open>
  A choice is an index into the free list and an index into the sizes as soon as the score
  has left its initial value \<^verbatim>\<open>math.MaxInt\<close>; this is what makes the reads
  \<^verbatim>\<open>p.freeRects[bestFreeRect]\<close> and \<^verbatim>\<open>sizes[bestRect]\<close> safe and the loop of
  \<^verbatim>\<open>Insert\<close> terminate.
\<close>

definition guillotine_validBest :: "nat \<Rightarrow> nat \<Rightarrow> guillotineBest \<Rightarrow> bool" where
  "guillotine_validBest nF nS best =
     (case best of (bestFreeRect, bestRect, bestFlipped, bestScore) \<Rightarrow>
        bestScore \<le> MaxInt \<and> (bestScore \<noteq> MaxInt \<longrightarrow> bestFreeRect < nF \<and> bestRect < nS))"

lemma guillotine_scanSizes_valid:
  "guillotine_validBest nF nS best \<Longrightarrow> i < nF \<Longrightarrow> j + length ss \<le> nS \<Longrightarrow>
   guillotine_validBest nF nS (guillotine_scanSizes p pad i freeRect j ss best)"
proof (induction ss arbitrary: j best)
  case Nil
  then show ?case by simp
next
  case (Cons s ss)
  obtain a b c d where best: "best = (a, b, c, d)" by (cases best) auto
  have j: "j < nS" "(j + 1) + length ss \<le> nS" using Cons.prems(3) by auto
  have v1: "guillotine_validBest nF nS (i, j, fl, sc)" if "sc < d" for fl sc
    using that Cons.prems(1,2) j(1) by (auto simp: guillotine_validBest_def best)
  have v2: "guillotine_validBest nF nS (i, j, fl, MinInt)" for fl
    using Cons.prems(2) j(1) by (auto simp: guillotine_validBest_def MinInt_def MaxInt_def)
  show ?case
    unfolding best
    using Cons.IH[OF _ Cons.prems(2) j(2)] v1 v2 Cons.prems(1)[unfolded best]
    by (simp add: Let_def)
qed

lemma guillotine_scanFree_valid:
  "guillotine_validBest nF nS best \<Longrightarrow> i + length frs \<le> nF \<Longrightarrow> length sizes \<le> nS \<Longrightarrow>
   guillotine_validBest nF nS (guillotine_scanFree p pad sizes i frs best)"
proof (induction frs arbitrary: i best)
  case Nil
  then show ?case by simp
next
  case (Cons f frs)
  have "guillotine_validBest nF nS (guillotine_scanSizes p pad i f 0 sizes best)"
    using Cons.prems by (intro guillotine_scanSizes_valid) auto
  then show ?case using Cons.prems by (simp add: Cons.IH)
qed

lemma guillotine_scanFree_bounds:
  assumes "guillotine_scanFree p pad sizes 0 (freeRects p) (a, b, c, MaxInt) = (a', b', c', sc)"
    and "sc \<noteq> MaxInt"
  shows "a' < length (freeRects p) \<and> b' < length sizes"
proof -
  have "guillotine_validBest (length (freeRects p)) (length sizes) (a, b, c, MaxInt)"
    by (simp add: guillotine_validBest_def)
  then have "guillotine_validBest (length (freeRects p)) (length sizes)
      (guillotine_scanFree p pad sizes 0 (freeRects p) (a, b, c, MaxInt))"
    by (intro guillotine_scanFree_valid) auto
  with assms show ?thesis by (simp add: guillotine_validBest_def)
qed

text \<open>
  \<^verbatim>\<open>for len(sizes) > 0 { ... }\<close>: one rectangle is placed per round, and the loop
  ends when no size fits any free rectangle. The three variables of the best choice are
  declared outside the loop in the source and are threaded through the rounds here.
\<close>

function guillotine_Insert_loop ::
  "int \<Rightarrow> nat \<times> nat \<times> bool \<Rightarrow> Size list \<Rightarrow> guillotinePack \<Rightarrow> guillotinePack \<times> Size list" where
  "guillotine_Insert_loop pad (bestFreeRect, bestRect, bestFlipped) sizes p =
     (if length sizes > 0 then
        (case guillotine_scanFree p pad sizes 0 (freeRects p)
                (bestFreeRect, bestRect, bestFlipped, MaxInt) of
           (bestFreeRect1, bestRect1, bestFlipped1, bestScore) \<Rightarrow>
             if bestScore = MaxInt then (p, sizes)
             else
               (let newNode = guillotine_newNode (freeRects p ! bestFreeRect1)
                                (sizes ! bestRect1) bestFlipped1;
                    p1 = guillotine_place pad bestFreeRect1 newNode p;
                    sizes1 = slices_Delete sizes bestRect1 (bestRect1 + 1)
                in guillotine_Insert_loop pad (bestFreeRect1, bestRect1, bestFlipped1) sizes1 p1))
      else (p, sizes))"
  by pat_completeness auto
termination
proof (relation "measure (\<lambda>(pad, best, sizes, p). length sizes)", goal_cases)
  case 1
  show ?case by simp
next
  case (2 pad bestFreeRect bestRect bestFlipped sizes p bestFreeRect1 r1 bestRect1 r2 bestFlipped1 bestScore newNode p1 sizes1)
  have "guillotine_scanFree p pad sizes 0 (freeRects p) (bestFreeRect, bestRect, bestFlipped, MaxInt)
      = (bestFreeRect1, bestRect1, bestFlipped1, bestScore)"
    using 2 by simp
  from guillotine_scanFree_bounds[OF this] 2 have "bestRect1 < length sizes" by simp
  then show ?case using 2 by (simp add: slices_Delete_def)
qed

declare guillotine_Insert_loop.simps [simp del]

definition guillotine_Insert :: "int \<Rightarrow> Size list \<Rightarrow> guillotinePack \<Rightarrow> guillotinePack \<times> Size list" where
  "guillotine_Insert pad sizes p = guillotine_Insert_loop pad (0, 0, False) sizes p"

section \<open>MaxRects engine (maxrects.go)\<close>

text \<open>
  \<^verbatim>\<open>findNode\<close> is a function-valued field that \<^verbatim>\<open>newMaxRects\<close> sets to one of five
  functions; the model stores which one and applies it with \<open>apply_findNode\<close>.
\<close>

datatype heuristicFunc =
  FindPositionBestAreaFit | FindPositionBottomLeft | FindPositionContactPoint
| FindPositionBestLongSideFit | FindPositionBestShortSideFit

record maxRects = algorithmBase +
  findNode :: heuristicFunc
  newLastSize :: nat
  newFreeRects :: "Rect list"
  freeRects :: "Rect list"

definition maxRects_zero :: maxRects where
  "maxRects_zero =
     \<lparr>packed = [], maxWidth = 0, maxHeight = 0, usedArea = 0, allowFlip = False, padding = 0,
      findNode = FindPositionBestShortSideFit, newLastSize = 0, newFreeRects = [],
      maxRects.freeRects = []\<rparr>"

definition maxRects_Reset :: "int \<Rightarrow> int \<Rightarrow> maxRects \<Rightarrow> panic + maxRects" where
  "maxRects_Reset w h p =
     (case algorithmBase_Reset w h p of
        Inl e \<Rightarrow> Inl e
      | Inr p1 \<Rightarrow>
          Inr (p1\<lparr>newFreeRects := [],
                   maxRects.freeRects := [NewRect 0 0 (maxWidth p1) (maxHeight p1)]\<rparr>))"

definition newMaxRects :: "int \<Rightarrow> int \<Rightarrow> Heuristic \<Rightarrow> panic + maxRects" where
  "newMaxRects w h heuristic =
     (let fit = heuristic AND fitMask;
          p = maxRects_zero\<lparr>findNode :=
                (if fit = BestAreaFit then FindPositionBestAreaFit
                 else if fit = BottomLeft then FindPositionBottomLeft
                 else if fit = ContactPoint then FindPositionContactPoint
                 else if fit = BestLongSideFit then FindPositionBestLongSideFit
                 else if fit = BestShortSideFit then FindPositionBestShortSideFit
                 else FindPositionBestShortSideFit)\<rparr>
      in maxRects_Reset w h p)"

subsection \<open>The five placement heuristics\<close>

text \<open>
  Each heuristic is a loop over the free rectangles that keeps the best node and its two
  scores. The loop body is a step function and the loop is \<^const>\<open>fold\<close> over the free list,
  started with the zero rectangle. The flipped branch sets \<^verbatim>\<open>Flipped\<close>; the upright branch
  leaves the flag as it is.
\<close>

type_synonym findResult = "Rect \<times> int \<times> int"

definition placeAt :: "Rect \<Rightarrow> Rect \<Rightarrow> int \<Rightarrow> int \<Rightarrow> Rect" where
  "placeAt bestNode freeRect w h =
     bestNode\<lparr>X := X freeRect, Y := Y freeRect, Width := w, Height := h\<rparr>"

definition findPositionBottomLeft_step ::
  "bool \<Rightarrow> int \<Rightarrow> int \<Rightarrow> Rect \<Rightarrow> findResult \<Rightarrow> findResult" where
  "findPositionBottomLeft_step flip w h freeRect acc =
     (let acc1 =
        (case acc of (bestNode, bestY, bestX) \<Rightarrow>
           if Width freeRect \<ge> w \<and> Height freeRect \<ge> h then
             (let topSideY = Y freeRect + h in
              if topSideY < bestY \<or> (topSideY = bestY \<and> X freeRect < bestX)
              then (placeAt bestNode freeRect w h, topSideY, X freeRect)
              else acc)
           else acc)
      in (case acc1 of (bestNode, bestY, bestX) \<Rightarrow>
           if flip \<and> Width freeRect \<ge> h \<and> Height freeRect \<ge> w then
             (let topSideY = Y freeRect + w in
              if topSideY < bestY \<or> (topSideY = bestY \<and> X freeRect < bestX)
              then ((placeAt bestNode freeRect h w)\<lparr>Flipped := True\<rparr>, topSideY, X freeRect)
              else acc1)
           else acc1))"

definition findPositionBottomLeft :: "maxRects \<Rightarrow> int \<Rightarrow> int \<Rightarrow> findResult" where
  "findPositionBottomLeft p w h =
     fold (findPositionBottomLeft_step (allowFlip p) w h) (maxRects.freeRects p)
       (zeroRect, MaxInt, MaxInt)"

text \<open>The accumulator of the two side-fit heuristics is
  (\<^verbatim>\<open>bestNode\<close>, \<^verbatim>\<open>bestShortSideFit\<close>, \<^verbatim>\<open>bestLongSideFit\<close>).\<close>

definition findPositionBestShortSideFit_step ::
  "bool \<Rightarrow> int \<Rightarrow> int \<Rightarrow> Rect \<Rightarrow> findResult \<Rightarrow> findResult" where
  "findPositionBestShortSideFit_step flip w h freeRect acc =
     (let acc1 =
        (case acc of (bestNode, bestShortSideFit, bestLongSideFit) \<Rightarrow>
           if Width freeRect \<ge> w \<and> Height freeRect \<ge> h then
             (let leftoverHoriz = abs_int (Width freeRect - w);
                  leftoverVert = abs_int (Height freeRect - h);
                  shortSideFit = min leftoverHoriz leftoverVert;
                  longSideFit = max leftoverHoriz leftoverVert
              in if shortSideFit < bestShortSideFit \<or>
                    (shortSideFit = bestShortSideFit \<and> longSideFit < bestLongSideFit)
                 then (placeAt bestNode freeRect w h, shortSideFit, longSideFit)
                 else acc)
           else acc)
      in (case acc1 of (bestNode, bestShortSideFit, bestLongSideFit) \<Rightarrow>
           if flip \<and> Width freeRect \<ge> h \<and> Height freeRect \<ge> w then
             (let flippedLeftoverHoriz = abs_int (Width freeRect - h);
                  flippedLeftoverVert = abs_int (Height freeRect - w);
                  flippedShortSideFit = min flippedLeftoverHoriz flippedLeftoverVert;
                  flippedLongSideFit = max flippedLeftoverHoriz flippedLeftoverVert
              in if flippedShortSideFit < bestShortSideFit \<or>
                    (flippedShortSideFit = bestShortSideFit \<and> flippedLongSideFit < bestLongSideFit)
                 then ((placeAt bestNode freeRect h w)\<lparr>Flipped := True\<rparr>,
                       flippedShortSideFit, flippedLongSideFit)
                 else acc1)
           else acc1))"

definition findPositionBestShortSideFit :: "maxRects \<Rightarrow> int \<Rightarrow> int \<Rightarrow> findResult" where
  "findPositionBestShortSideFit p w h =
     fold (findPositionBestShortSideFit_step (allowFlip p) w h) (maxRects.freeRects p)
       (zeroRect, MaxInt, MaxInt)"

definition findPositionBestLongSideFit_step ::
  "bool \<Rightarrow> int \<Rightarrow> int \<Rightarrow> Rect \<Rightarrow> findResult \<Rightarrow> findResult" where
  "findPositionBestLongSideFit_step flip w h freeRect acc =
     (let acc1 =
        (case acc of (bestNode, bestShortSideFit, bestLongSideFit) \<Rightarrow>
           if Width freeRect \<ge> w \<and> Height freeRect \<ge> h then
             (let leftoverHoriz = abs_int (Width freeRect - w);
                  leftoverVert = abs_int (Height freeRect - h);
                  shortSideFit = min leftoverHoriz leftoverVert;
                  longSideFit = max leftoverHoriz leftoverVert
              in if longSideFit < bestLongSideFit \<or>
                    (longSideFit = bestLongSideFit \<and> shortSideFit < bestShortSideFit)
                 then (placeAt bestNode freeRect w h, shortSideFit, longSideFit)
                 else acc)
           else acc)
      in (case acc1 of (bestNode, bestShortSideFit, bestLongSideFit) \<Rightarrow>
           if flip \<and> Width freeRect \<ge> h \<and> Height freeRect \<ge> w then
             (let leftoverHoriz = abs_int (Width freeRect - h);
                  leftoverVert = abs_int (Height freeRect - w);
                  shortSideFit = min leftoverHoriz leftoverVert;
                  longSideFit = max leftoverHoriz leftoverVert
              in if longSideFit < bestLongSideFit \<or>
                    (longSideFit = bestLongSideFit \<and> shortSideFit < bestShortSideFit)
                 then ((placeAt bestNode freeRect h w)\<lparr>Flipped := True\<rparr>,
                       shortSideFit, longSideFit)
                 else acc1)
           else acc1))"

definition findPositionBestLongSideFit :: "maxRects \<Rightarrow> int \<Rightarrow> int \<Rightarrow> findResult" where
  "findPositionBestLongSideFit p w h =
     fold (findPositionBestLongSideFit_step (allowFlip p) w h) (maxRects.freeRects p)
       (zeroRect, MaxInt, MaxInt)"

text \<open>The accumulator of the area fit is (\<^verbatim>\<open>bestNode\<close>, \<^verbatim>\<open>bestAreaFit\<close>,
  \<^verbatim>\<open>bestShortSideFit\<close>), the order in which the function returns them.\<close>

definition findPositionBestAreaFit_step ::
  "bool \<Rightarrow> int \<Rightarrow> int \<Rightarrow> Rect \<Rightarrow> findResult \<Rightarrow> findResult" where
  "findPositionBestAreaFit_step flip w h freeRect acc =
     (let areaFit = Width freeRect * Height freeRect - w * h;
          acc1 =
        (case acc of (bestNode, bestAreaFit, bestShortSideFit) \<Rightarrow>
           if Width freeRect \<ge> w \<and> Height freeRect \<ge> h then
             (let leftoverHoriz = abs_int (Width freeRect - w);
                  leftoverVert = abs_int (Height freeRect - h);
                  shortSideFit = min leftoverHoriz leftoverVert
              in if areaFit < bestAreaFit \<or>
                    (areaFit = bestAreaFit \<and> shortSideFit < bestShortSideFit)
                 then (placeAt bestNode freeRect w h, areaFit, shortSideFit)
                 else acc)
           else acc)
      in (case acc1 of (bestNode, bestAreaFit, bestShortSideFit) \<Rightarrow>
           if flip \<and> Width freeRect \<ge> h \<and> Height freeRect \<ge> w then
             (let leftoverHoriz = abs_int (Width freeRect - h);
                  leftoverVert = abs_int (Height freeRect - w);
                  shortSideFit = min leftoverHoriz leftoverVert
              in if areaFit < bestAreaFit \<or>
                    (areaFit = bestAreaFit \<and> shortSideFit < bestShortSideFit)
                 then ((placeAt bestNode freeRect h w)\<lparr>Flipped := True\<rparr>, areaFit, shortSideFit)
                 else acc1)
           else acc1))"

definition findPositionBestAreaFit :: "maxRects \<Rightarrow> int \<Rightarrow> int \<Rightarrow> findResult" where
  "findPositionBestAreaFit p w h =
     fold (findPositionBestAreaFit_step (allowFlip p) w h) (maxRects.freeRects p)
       (zeroRect, MaxInt, MaxInt)"

definition commonIntervalLength :: "int \<Rightarrow> int \<Rightarrow> int \<Rightarrow> int \<Rightarrow> int" where
  "commonIntervalLength i1start i1end i2start i2end =
     (if i1end < i2start \<or> i2end < i1start then 0
      else min i1end i2end - max i1start i2start)"

definition contactPointScoreNode :: "maxRects \<Rightarrow> int \<Rightarrow> int \<Rightarrow> int \<Rightarrow> int \<Rightarrow> int" where
  "contactPointScoreNode p x y w h =
     (let score0 = (if x = 0 \<or> x + w = maxWidth p then h else 0);
          score1 = (if y = 0 \<or> y + h = maxHeight p then score0 + w else score0)
      in fold (\<lambda>used score.
            (let s1 = (if X used = x + w \<or> X used + Width used = x
                       then score + commonIntervalLength (Y used) (Y used + Height used) y (y + h)
                       else score)
             in if Y used = y + h \<or> Y used + Height used = y
                then s1 + commonIntervalLength (X used) (X used + Width used) x (x + w)
                else s1))
          (packed p) score1)"

text \<open>The accumulator of the contact point heuristic is (\<^verbatim>\<open>bestNode\<close>,
  \<^verbatim>\<open>bestContactScore\<close>); the second score returned is \<^verbatim>\<open>math.MaxInt\<close>.\<close>

definition findPositionContactPoint_step ::
  "maxRects \<Rightarrow> int \<Rightarrow> int \<Rightarrow> Rect \<Rightarrow> Rect \<times> int \<Rightarrow> Rect \<times> int" where
  "findPositionContactPoint_step p w h freeRect acc =
     (let acc1 =
        (case acc of (bestNode, bestContactScore) \<Rightarrow>
           if Width freeRect \<ge> w \<and> Height freeRect \<ge> h then
             (let score = contactPointScoreNode p (X freeRect) (Y freeRect) w h in
              if score > bestContactScore
              then (placeAt bestNode freeRect w h, score)
              else acc)
           else acc)
      in (case acc1 of (bestNode, bestContactScore) \<Rightarrow>
           if allowFlip p \<and> Width freeRect \<ge> h \<and> Height freeRect \<ge> w then
             (let score = contactPointScoreNode p (X freeRect) (Y freeRect) h w in
              if score > bestContactScore
              then ((placeAt bestNode freeRect h w)\<lparr>Flipped := True\<rparr>, score)
              else acc1)
           else acc1))"

definition findPositionContactPoint :: "maxRects \<Rightarrow> int \<Rightarrow> int \<Rightarrow> findResult" where
  "findPositionContactPoint p w h =
     (case fold (findPositionContactPoint_step p w h) (maxRects.freeRects p) (zeroRect, - 1) of
        (bestNode, bestContactScore) \<Rightarrow> (bestNode, bestContactScore, MaxInt))"

fun apply_findNode :: "heuristicFunc \<Rightarrow> maxRects \<Rightarrow> int \<Rightarrow> int \<Rightarrow> findResult" where
  "apply_findNode FindPositionBestAreaFit p w h = findPositionBestAreaFit p w h"
| "apply_findNode FindPositionBottomLeft p w h = findPositionBottomLeft p w h"
| "apply_findNode FindPositionContactPoint p w h = findPositionContactPoint p w h"
| "apply_findNode FindPositionBestLongSideFit p w h = findPositionBestLongSideFit p w h"
| "apply_findNode FindPositionBestShortSideFit p w h = findPositionBestShortSideFit p w h"

definition maxRects_scoreRect :: "maxRects \<Rightarrow> int \<Rightarrow> int \<Rightarrow> findResult" where
  "maxRects_scoreRect p w h =
     (case apply_findNode (findNode p) p w h of
        (newNode, score1, score2) \<Rightarrow>
          if Height newNode = 0 then (newNode, MaxInt, MaxInt) else (newNode, score1, score2))"

subsection \<open>Splitting and pruning the free list\<close>

text \<open>
  \<^verbatim>\<open>s[i] = s[last]; s = s[:last]\<close>: removal of the element at \<open>i\<close> by moving the last
  element into its place.
\<close>

definition swapRemove :: "'a list \<Rightarrow> nat \<Rightarrow> 'a list" where
  "swapRemove s i = butlast (s[i := last s])"

text \<open>
  The loop of \<^verbatim>\<open>insertNewFreeRectangle\<close> on the pair (\<^verbatim>\<open>newLastSize\<close>, \<^verbatim>\<open>newFreeRects\<close>).
  The result says whether the loop ran to its end (the function then appends the new
  rectangle) or returned early because an earlier new rectangle contains the new one.
\<close>

function insertNewFreeRectangle_loop ::
  "Rect \<Rightarrow> nat \<Rightarrow> nat \<Rightarrow> Rect list \<Rightarrow> bool \<times> nat \<times> Rect list" where
  "insertNewFreeRectangle_loop newFreeRect i lastSize nfr =
     (if i < lastSize then
        (if ContainsRect (nfr ! i) newFreeRect then (False, lastSize, nfr)
         else if ContainsRect newFreeRect (nfr ! i) then
           (let lastSize1 = lastSize - 1;
                nfr1 = nfr[i := nfr ! lastSize1];
                last1 = length nfr1 - 1;
                nfr2 = nfr1[lastSize1 := nfr1 ! last1]
            in insertNewFreeRectangle_loop newFreeRect i lastSize1 (take last1 nfr2))
         else insertNewFreeRectangle_loop newFreeRect (i + 1) lastSize nfr)
      else (True, lastSize, nfr))"
  by pat_completeness auto
termination
  by (relation "measure (\<lambda>(r, i, lastSize, nfr). lastSize - i)") auto

declare insertNewFreeRectangle_loop.simps [simp del]

definition insertNewFreeRectangle :: "Rect \<Rightarrow> maxRects \<Rightarrow> maxRects" where
  "insertNewFreeRectangle newFreeRect p =
     (case insertNewFreeRectangle_loop newFreeRect 0 (newLastSize p) (newFreeRects p) of
        (toEnd, lastSize, nfr) \<Rightarrow>
          p\<lparr>newLastSize := lastSize,
            newFreeRects := (if toEnd then nfr @ [newFreeRect] else nfr)\<rparr>)"

definition splitFreeNode :: "Rect \<Rightarrow> Rect \<Rightarrow> maxRects \<Rightarrow> bool \<times> maxRects" where
  "splitFreeNode freeNode usedNode p =
     (if X usedNode \<ge> X freeNode + Width freeNode \<or> X usedNode + Width usedNode \<le> X freeNode \<or>
         Y usedNode \<ge> Y freeNode + Height freeNode \<or> Y usedNode + Height usedNode \<le> Y freeNode
      then (False, p)
      else
        (let p0 = p\<lparr>newLastSize := length (newFreeRects p)\<rparr>;
             p2 =
               (if X usedNode < X freeNode + Width freeNode \<and> X usedNode + Width usedNode > X freeNode
                then
                  (let p1 =
                     (if Y usedNode > Y freeNode \<and> Y usedNode < Y freeNode + Height freeNode
                      then insertNewFreeRectangle
                             (freeNode\<lparr>Height := Y usedNode - Y freeNode\<rparr>) p0
                      else p0)
                   in if Y usedNode + Height usedNode < Y freeNode + Height freeNode
                      then insertNewFreeRectangle
                             (freeNode\<lparr>Y := Y usedNode + Height usedNode,
                                        Height := Y freeNode + Height freeNode
                                                    - (Y usedNode + Height usedNode)\<rparr>) p1
                      else p1)
                else p0);
             p4 =
               (if Y usedNode < Y freeNode + Height freeNode \<and> Y usedNode + Height usedNode > Y freeNode
                then
                  (let p3 =
                     (if X usedNode > X freeNode \<and> X usedNode < X freeNode + Width freeNode
                      then insertNewFreeRectangle
                             (freeNode\<lparr>Width := X usedNode - X freeNode\<rparr>) p2
                      else p2)
                   in if X usedNode + Width usedNode < X freeNode + Width freeNode
                      then insertNewFreeRectangle
                             (freeNode\<lparr>X := X usedNode + Width usedNode,
                                        Width := X freeNode + Width freeNode
                                                   - (X usedNode + Width usedNode)\<rparr>) p3
                      else p3)
                else p2)
         in (True, p4)))"

lemma insertNewFreeRectangle_freeRects [simp]:
  "maxRects.freeRects (insertNewFreeRectangle r p) = maxRects.freeRects p"
  by (simp add: insertNewFreeRectangle_def split: prod.splits)

lemma splitFreeNode_freeRects [simp]:
  "maxRects.freeRects (snd (splitFreeNode f u p)) = maxRects.freeRects p"
  by (simp add: splitFreeNode_def Let_def)

text \<open>The loop of \<^verbatim>\<open>placeRect\<close> over the free list.\<close>

function placeRect_loop :: "nat \<Rightarrow> Rect \<Rightarrow> maxRects \<Rightarrow> maxRects" where
  "placeRect_loop i node p =
     (if i < length (maxRects.freeRects p) then
        (case splitFreeNode (maxRects.freeRects p ! i) node p of
           (True, p1) \<Rightarrow>
             placeRect_loop i node
               (p1\<lparr>maxRects.freeRects := swapRemove (maxRects.freeRects p1) i\<rparr>)
         | (False, p1) \<Rightarrow> placeRect_loop (i + 1) node p1)
      else p)"
  by pat_completeness auto
termination
proof (relation "measure (\<lambda>(i, node, p). length (maxRects.freeRects p) - i)", goal_cases)
  case 1
  show ?case by simp
next
  case (2 i node p x1 p1)
  then have "maxRects.freeRects p1 = maxRects.freeRects p"
    by (metis splitFreeNode_freeRects snd_conv)
  with 2 show ?case by (simp add: swapRemove_def)
next
  case (3 i node p x1 p1)
  then have "maxRects.freeRects p1 = maxRects.freeRects p"
    by (metis splitFreeNode_freeRects snd_conv)
  with 3 show ?case by simp
qed

declare placeRect_loop.simps [simp del]

text \<open>The inner loop of \<^verbatim>\<open>pruneFreeList\<close> for one old free rectangle.\<close>

function pruneFreeList_inner :: "Rect \<Rightarrow> nat \<Rightarrow> Rect list \<Rightarrow> Rect list" where
  "pruneFreeList_inner freeRect j nfr =
     (if j < length nfr then
        (if ContainsRect freeRect (nfr ! j) then pruneFreeList_inner freeRect j (swapRemove nfr j)
         else pruneFreeList_inner freeRect (j + 1) nfr)
      else nfr)"
  by pat_completeness auto
termination
  by (relation "measure (\<lambda>(f, j, nfr). length nfr - j)") (auto simp: swapRemove_def)

declare pruneFreeList_inner.simps [simp del]

definition pruneFreeList :: "maxRects \<Rightarrow> maxRects" where
  "pruneFreeList p =
     (let nfr = fold (\<lambda>freeRect nfr. pruneFreeList_inner freeRect 0 nfr)
                  (maxRects.freeRects p) (newFreeRects p)
      in p\<lparr>maxRects.freeRects := maxRects.freeRects p @ nfr, newFreeRects := []\<rparr>)"

definition placeRect :: "Rect \<Rightarrow> maxRects \<Rightarrow> maxRects" where
  "placeRect node p =
     (let p1 = pruneFreeList (placeRect_loop 0 node p)
      in p1\<lparr>usedArea := usedArea p1 + Area node\<rparr>)"

subsection \<open>Insert\<close>

text \<open>
  The loop over the sizes of one round: (\<^verbatim>\<open>bestNode\<close>, \<^verbatim>\<open>bestScore1\<close>, \<^verbatim>\<open>bestScore2\<close>,
  \<^verbatim>\<open>bestRectIndex\<close>), where the index \<open>-1\<close> says that nothing was chosen.
\<close>

type_synonym maxRectsBest = "Rect \<times> int \<times> int \<times> int"

fun maxRects_scanSizes :: "maxRects \<Rightarrow> int \<Rightarrow> Size list \<Rightarrow> maxRectsBest \<Rightarrow> maxRectsBest" where
  "maxRects_scanSizes p i [] best = best"
| "maxRects_scanSizes p i (s # rest) (bestNode, bestScore1, bestScore2, bestRectIndex) =
     (let sz = padSize s (padding p) in
      case maxRects_scoreRect p (Width sz) (Height sz) of
        (newNode, score1, score2) \<Rightarrow>
          maxRects_scanSizes p (i + 1) rest
            (if score1 < bestScore1 \<or> (score1 = bestScore1 \<and> score2 < bestScore2)
             then (newNode\<lparr>ID := ID sz\<rparr>, score1, score2, i)
             else (bestNode, bestScore1, bestScore2, bestRectIndex)))"

function maxRects_Insert :: "Size list \<Rightarrow> maxRects \<Rightarrow> maxRects \<times> Size list" where
  "maxRects_Insert sizes p =
     (if length sizes > 0 then
        (case maxRects_scanSizes p 0 sizes (zeroRect, MaxInt, MaxInt, - 1) of
           (bestNode, bestScore1, bestScore2, bestRectIndex) \<Rightarrow>
             if bestRectIndex = - 1 then (p, sizes)
             else
               (let p1 = placeRect bestNode p;
                    p2 = p1\<lparr>packed := packed p1 @ [unpadRect bestNode (padding p1)]\<rparr>
                in maxRects_Insert (swapRemove sizes (nat bestRectIndex)) p2))
      else (p, sizes))"
  by pat_completeness auto
termination
  by (relation "measure (\<lambda>(sizes, p). length sizes)") (auto simp: swapRemove_def)

declare maxRects_Insert.simps [simp del]

section \<open>Skyline engine (skyline.go)\<close>

record skylinePack = algorithmBase +
  levelSelect :: Heuristic
  skyline :: "skylineNode list"
  wasteMap :: "guillotinePack option"

definition skyline_zero :: skylinePack where
  "skyline_zero =
     \<lparr>packed = [], maxWidth = 0, maxHeight = 0, usedArea = 0, allowFlip = False, padding = 0,
      levelSelect = 0, skyline = [], wasteMap = None\<rparr>"

definition skyline_Reset :: "int \<Rightarrow> int \<Rightarrow> skylinePack \<Rightarrow> panic + skylinePack" where
  "skyline_Reset w h p =
     (case algorithmBase_Reset w h p of
        Inl e \<Rightarrow> Inl e
      | Inr p1 \<Rightarrow>
          (let p2 = p1\<lparr>skyline := [\<lparr>skylineNode.X = 0, skylineNode.Y = 0,
                                       skylineNode.Width = maxWidth p1\<rparr>]\<rparr>
           in case wasteMap p2 of
                None \<Rightarrow> Inr p2
              | Some wm \<Rightarrow>
                  (case guillotine_Reset w h wm of
                     Inl e \<Rightarrow> Inl e
                   | Inr wm1 \<Rightarrow> Inr (p2\<lparr>wasteMap := Some wm1\<rparr>))))"

definition newSkyline :: "int \<Rightarrow> int \<Rightarrow> Heuristic \<Rightarrow> panic + skylinePack" where
  "newSkyline w h heuristic =
     (if heuristic AND fitMask = MinWaste then
        (case newGuillotine w h BestAreaFit of
           Inl e \<Rightarrow> Inl e
         | Inr wm \<Rightarrow> skyline_Reset w h (skyline_zero\<lparr>levelSelect := MinWaste, wasteMap := Some wm\<rparr>))
      else skyline_Reset w h (skyline_zero\<lparr>levelSelect := BottomLeft\<rparr>))"

subsection \<open>Merging and raising the skyline\<close>

function mergeSkylines_loop :: "nat \<Rightarrow> skylineNode list \<Rightarrow> skylineNode list" where
  "mergeSkylines_loop i sk =
     (if i + 1 < length sk then
        (if skylineNode.Y (sk ! i) = skylineNode.Y (sk ! (i + 1)) then
           (let sk1 = sk[i := (sk ! i)\<lparr>skylineNode.Width :=
                         skylineNode.Width (sk ! i) + skylineNode.Width (sk ! (i + 1))\<rparr>]
            in mergeSkylines_loop i (slices_Delete sk1 (i + 1) (i + 2)))
         else mergeSkylines_loop (i + 1) sk)
      else sk)"
  by pat_completeness auto
termination
  by (relation "measure (\<lambda>(i, sk). length sk - i)") (auto simp: slices_Delete_def)

declare mergeSkylines_loop.simps [simp del]

definition mergeSkylines :: "skylinePack \<Rightarrow> skylinePack" where
  "mergeSkylines p = p\<lparr>skyline := mergeSkylines_loop 0 (skyline p)\<rparr>"

text \<open>
  The loop of \<^verbatim>\<open>addLevel\<close> that shrinks or deletes the nodes under the new one. A
  deletion is followed by \<^verbatim>\<open>i--\<close> and the loop's \<^verbatim>\<open>i++\<close>, so the index stays.
\<close>

function addLevel_loop :: "nat \<Rightarrow> skylineNode list \<Rightarrow> skylineNode list" where
  "addLevel_loop i sk =
     (if i < length sk then
        (if skylineNode.X (sk ! i) < skylineNode.X (sk ! (i - 1)) + skylineNode.Width (sk ! (i - 1)) then
           (let shrink = skylineNode.X (sk ! (i - 1)) + skylineNode.Width (sk ! (i - 1))
                           - skylineNode.X (sk ! i);
                sk1 = sk[i := (sk ! i)\<lparr>skylineNode.X := skylineNode.X (sk ! i) + shrink,
                                       skylineNode.Width := skylineNode.Width (sk ! i) - shrink\<rparr>]
            in if skylineNode.Width (sk1 ! i) \<le> 0
               then addLevel_loop i (slices_Delete sk1 i (i + 1))
               else sk1)
         else sk)
      else sk)"
  by pat_completeness auto
termination
  by (relation "measure (\<lambda>(i, sk). length sk - i)") (auto simp: slices_Delete_def)

declare addLevel_loop.simps [simp del]

text \<open>The loop of \<^verbatim>\<open>addWaste\<close>, on the free list of the waste map.\<close>

function addWaste_loop ::
  "skylineNode list \<Rightarrow> int \<Rightarrow> int \<Rightarrow> int \<Rightarrow> nat \<Rightarrow> Rect list \<Rightarrow> Rect list" where
  "addWaste_loop sk rectLeft rectRight y index fr =
     (if index < length sk \<and> skylineNode.X (sk ! index) < rectRight then
        (if skylineNode.X (sk ! index) \<ge> rectRight \<or>
            skylineNode.X (sk ! index) + skylineNode.Width (sk ! index) \<le> rectLeft
         then fr
         else
           (let leftSide = skylineNode.X (sk ! index);
                rightSide = min rectRight (leftSide + skylineNode.Width (sk ! index));
                waste = zeroRect\<lparr>X := leftSide, Y := skylineNode.Y (sk ! index),
                                  Width := rightSide - leftSide,
                                  Height := y - skylineNode.Y (sk ! index)\<rparr>
            in addWaste_loop sk rectLeft rectRight y (index + 1) (fr @ [waste])))
      else fr)"
  by pat_completeness auto
termination
  by (relation "measure (\<lambda>(sk, l, r, y, index, fr). length sk - index)") auto

declare addWaste_loop.simps [simp del]

text \<open>\<^verbatim>\<open>addWaste\<close> is called only with a waste map; \<open>wm\<close> is that map.\<close>

definition addWaste :: "nat \<Rightarrow> int \<Rightarrow> int \<Rightarrow> int \<Rightarrow> skylinePack \<Rightarrow> guillotinePack \<Rightarrow> skylinePack" where
  "addWaste index w h y p wm =
     (let rectLeft = skylineNode.X (skyline p ! index);
          rectRight = rectLeft + w
      in p\<lparr>wasteMap := Some (wm\<lparr>guillotinePack.freeRects :=
             addWaste_loop (skyline p) rectLeft rectRight y index (guillotinePack.freeRects wm)\<rparr>)\<rparr>)"

definition addLevel :: "nat \<Rightarrow> Rect \<Rightarrow> skylinePack \<Rightarrow> skylinePack" where
  "addLevel index rect p =
     (let p1 = (case wasteMap p of
                  None \<Rightarrow> p
                | Some wm \<Rightarrow> addWaste index (Width rect) (Height rect) (Y rect) p wm);
          newNode = \<lparr>skylineNode.X = X rect, skylineNode.Y = Y rect + Height rect,
                     skylineNode.Width = Width rect\<rparr>;
          p2 = p1\<lparr>skyline := slices_Insert (skyline p1) index newNode\<rparr>;
          p3 = p2\<lparr>skyline := addLevel_loop (index + 1) (skyline p2)\<rparr>
      in mergeSkylines p3)"

subsection \<open>Fitting a rectangle on the skyline\<close>

text \<open>
  \<^verbatim>\<open>testFit\<close> returns whether the rectangle fits at the node \<open>index\<close> and, through
  \<^verbatim>\<open>*y\<close>, the height at which it rests: \<open>Some y\<close> when it fits, \<open>None\<close> when it does not.
  The loop reads \<^verbatim>\<open>p.skyline[i]\<close> with no bound on \<open>i\<close>; past the end of the slice
  this is a run-time panic.
\<close>

function testFit_loop :: "skylinePack \<Rightarrow> int \<Rightarrow> int \<Rightarrow> nat \<Rightarrow> int \<Rightarrow> panic + int option" where
  "testFit_loop p h widthLeft i y =
     (if widthLeft > 0 then
        (if i < length (skyline p) then
           (let y1 = max y (skylineNode.Y (skyline p ! i)) in
            if y1 + h > maxHeight p then Inr None
            else testFit_loop p h (widthLeft - skylineNode.Width (skyline p ! i)) (i + 1) y1)
         else Inl IndexPanic)
      else Inr (Some y))"
  by pat_completeness auto
termination
  by (relation "measure (\<lambda>(p, h, widthLeft, i, y). length (skyline p) - i)") auto

declare testFit_loop.simps [simp del]

definition testFit :: "skylinePack \<Rightarrow> nat \<Rightarrow> int \<Rightarrow> int \<Rightarrow> panic + int option" where
  "testFit p index w h =
     (if index < length (skyline p) then
        (let x = skylineNode.X (skyline p ! index) in
         if x + w > maxWidth p then Inr None
         else testFit_loop p h w index (skylineNode.Y (skyline p ! index)))
      else Inl IndexPanic)"

function computeWaste_loop ::
  "skylineNode list \<Rightarrow> int \<Rightarrow> int \<Rightarrow> int \<Rightarrow> nat \<Rightarrow> int \<Rightarrow> int" where
  "computeWaste_loop sk rectLeft rectRight y index wastedArea =
     (if index < length sk \<and> skylineNode.X (sk ! index) < rectRight then
        (if skylineNode.X (sk ! index) \<ge> rectRight \<or>
            skylineNode.X (sk ! index) + skylineNode.Width (sk ! index) \<le> rectLeft
         then wastedArea
         else
           (let leftSide = skylineNode.X (sk ! index);
                rightSide = min rectRight (leftSide + skylineNode.Width (sk ! index))
            in computeWaste_loop sk rectLeft rectRight y (index + 1)
                 (wastedArea + (rightSide - leftSide) * (y - skylineNode.Y (sk ! index)))))
      else wastedArea)"
  by pat_completeness auto
termination
  by (relation "measure (\<lambda>(sk, l, r, y, index, a). length sk - index)") auto

declare computeWaste_loop.simps [simp del]

definition computeWaste :: "skylinePack \<Rightarrow> nat \<Rightarrow> int \<Rightarrow> int \<Rightarrow> int \<Rightarrow> int" where
  "computeWaste p index w h y =
     (let rectLeft = skylineNode.X (skyline p ! index);
          rectRight = rectLeft + w
      in computeWaste_loop (skyline p) rectLeft rectRight y index 0)"

text \<open>\<^verbatim>\<open>testFitWithWaste\<close>: \<open>Some (y, wastedArea)\<close> when the rectangle fits.\<close>

definition testFitWithWaste :: "skylinePack \<Rightarrow> nat \<Rightarrow> int \<Rightarrow> int \<Rightarrow> panic + (int \<times> int) option" where
  "testFitWithWaste p index w h =
     (case testFit p index w h of
        Inl e \<Rightarrow> Inl e
      | Inr None \<Rightarrow> Inr None
      | Inr (Some y) \<Rightarrow> Inr (Some (y, computeWaste p index w h y)))"

text \<open>
  The result of a search: (\<^verbatim>\<open>newNode\<close>, \<^verbatim>\<open>*bestHeight\<close>, second score, \<^verbatim>\<open>*bestIndex\<close>);
  the second score is \<^verbatim>\<open>*bestWidth\<close> for \<^verbatim>\<open>findBottomLeft\<close> and \<^verbatim>\<open>*bestWastedArea\<close>
  for \<^verbatim>\<open>findMinWaste\<close>.
\<close>

type_synonym skylineFound = "Rect \<times> int \<times> int \<times> int"

text \<open>The body of the \<^verbatim>\<open>if p.testFit(...)\<close> of \<^verbatim>\<open>findBottomLeft\<close>, for the orientation
  \<open>w\<close> by \<open>h\<close>; \<open>flipped\<close> says whether it is the second (flipped) test.\<close>

definition findBottomLeft_update ::
  "skylinePack \<Rightarrow> nat \<Rightarrow> int \<Rightarrow> int \<Rightarrow> bool \<Rightarrow> int \<Rightarrow> skylineFound \<Rightarrow> skylineFound" where
  "findBottomLeft_update p i w h flipped y acc =
     (case acc of (newNode, bestHeight, bestWidth, bestIndex) \<Rightarrow>
        if y + h < bestHeight \<or>
           (y + h = bestHeight \<and> skylineNode.Width (skyline p ! i) < bestWidth)
        then
          (let n1 = newNode\<lparr>X := skylineNode.X (skyline p ! i), Y := y, Width := w, Height := h\<rparr>
           in (if flipped then n1\<lparr>Flipped := True\<rparr> else n1,
               y + h, skylineNode.Width (skyline p ! i), int i))
        else acc)"

function findBottomLeft_loop ::
  "skylinePack \<Rightarrow> int \<Rightarrow> int \<Rightarrow> nat \<Rightarrow> skylineFound \<Rightarrow> panic + skylineFound" where
  "findBottomLeft_loop p w h i acc =
     (if i < length (skyline p) then
        (case testFit p i w h of
           Inl e \<Rightarrow> Inl e
         | Inr r1 \<Rightarrow>
             (let acc1 = (case r1 of None \<Rightarrow> acc
                          | Some y \<Rightarrow> findBottomLeft_update p i w h False y acc)
              in if allowFlip p then
                   (case testFit p i h w of
                      Inl e \<Rightarrow> Inl e
                    | Inr r2 \<Rightarrow>
                        findBottomLeft_loop p w h (i + 1)
                          (case r2 of None \<Rightarrow> acc1
                           | Some y \<Rightarrow> findBottomLeft_update p i h w True y acc1))
                 else findBottomLeft_loop p w h (i + 1) acc1))
      else Inr acc)"
  by pat_completeness auto
termination
  by (relation "measure (\<lambda>(p, w, h, i, acc). length (skyline p) - i)") auto

declare findBottomLeft_loop.simps [simp del]

definition findBottomLeft :: "skylinePack \<Rightarrow> int \<Rightarrow> int \<Rightarrow> panic + skylineFound" where
  "findBottomLeft p w h = findBottomLeft_loop p w h 0 (zeroRect, MaxInt, MaxInt, - 1)"

text \<open>The same for \<^verbatim>\<open>findMinWaste\<close>; the accumulator is (\<^verbatim>\<open>newNode\<close>, \<^verbatim>\<open>*bestHeight\<close>,
  \<^verbatim>\<open>*bestWastedArea\<close>, \<^verbatim>\<open>*bestIndex\<close>).\<close>

definition findMinWaste_update ::
  "skylinePack \<Rightarrow> nat \<Rightarrow> int \<Rightarrow> int \<Rightarrow> bool \<Rightarrow> int \<times> int \<Rightarrow> skylineFound \<Rightarrow> skylineFound" where
  "findMinWaste_update p i w h flipped yw acc =
     (case acc of (newNode, bestHeight, bestWastedArea, bestIndex) \<Rightarrow>
      case yw of (y, wasted) \<Rightarrow>
        if wasted < bestWastedArea \<or> (wasted = bestWastedArea \<and> y + h < bestHeight)
        then
          (let n1 = newNode\<lparr>X := skylineNode.X (skyline p ! i), Y := y, Width := w, Height := h\<rparr>
           in (if flipped then n1\<lparr>Flipped := True\<rparr> else n1, y + h, wasted, int i))
        else acc)"

function findMinWaste_loop ::
  "skylinePack \<Rightarrow> int \<Rightarrow> int \<Rightarrow> nat \<Rightarrow> skylineFound \<Rightarrow> panic + skylineFound" where
  "findMinWaste_loop p w h i acc =
     (if i < length (skyline p) then
        (case testFitWithWaste p i w h of
           Inl e \<Rightarrow> Inl e
         | Inr r1 \<Rightarrow>
             (let acc1 = (case r1 of None \<Rightarrow> acc
                          | Some yw \<Rightarrow> findMinWaste_update p i w h False yw acc)
              in if allowFlip p then
                   (case testFitWithWaste p i h w of
                      Inl e \<Rightarrow> Inl e
                    | Inr r2 \<Rightarrow>
                        findMinWaste_loop p w h (i + 1)
                          (case r2 of None \<Rightarrow> acc1
                           | Some yw \<Rightarrow> findMinWaste_update p i h w True yw acc1))
                 else findMinWaste_loop p w h (i + 1) acc1))
      else Inr acc)"
  by pat_completeness auto
termination
  by (relation "measure (\<lambda>(p, w, h, i, acc). length (skyline p) - i)") auto

declare findMinWaste_loop.simps [simp del]

definition findMinWaste :: "skylinePack \<Rightarrow> int \<Rightarrow> int \<Rightarrow> panic + skylineFound" where
  "findMinWaste p w h = findMinWaste_loop p w h 0 (zeroRect, MaxInt, MaxInt, - 1)"

subsection \<open>Insert\<close>

text \<open>
  The \<^verbatim>\<open>switch p.levelSelect\<close> of \<^verbatim>\<open>Insert\<close>: the node found, \<^verbatim>\<open>score1\<close>, \<^verbatim>\<open>score2\<close>
  and \<^verbatim>\<open>index\<close>. \<^verbatim>\<open>findMinWaste\<close> is called with \<^verbatim>\<open>&score2, &score1\<close>, so that its wasted
  area is the first score and its height the second.
\<close>

definition skyline_findNode :: "skylinePack \<Rightarrow> int \<Rightarrow> int \<Rightarrow> panic + skylineFound" where
  "skyline_findNode p w h =
     (if levelSelect p = MinWaste then
        (case findMinWaste p w h of
           Inl e \<Rightarrow> Inl e
         | Inr (newNode, bestHeight, bestWastedArea, bestIndex) \<Rightarrow>
             Inr (newNode, bestWastedArea, bestHeight, bestIndex))
      else findBottomLeft p w h)"

text \<open>(\<^verbatim>\<open>bestNode\<close>, \<^verbatim>\<open>bestScore1\<close>, \<^verbatim>\<open>bestScore2\<close>, \<^verbatim>\<open>bestBinIndex\<close>, \<^verbatim>\<open>bestSizeIndex\<close>).\<close>

type_synonym skylineBest = "Rect \<times> int \<times> int \<times> int \<times> int"

fun skyline_scanSizes :: "skylinePack \<Rightarrow> int \<Rightarrow> Size list \<Rightarrow> skylineBest \<Rightarrow> panic + skylineBest" where
  "skyline_scanSizes p i [] best = Inr best"
| "skyline_scanSizes p i (s # rest) (bestNode, bestScore1, bestScore2, bestBinIndex, bestSizeIndex) =
     (let sz = padSize s (padding p) in
      case skyline_findNode p (Width sz) (Height sz) of
        Inl e \<Rightarrow> Inl e
      | Inr (newNode, score1, score2, index) \<Rightarrow>
          skyline_scanSizes p (i + 1) rest
            (if Height newNode \<noteq> 0 \<and>
                (score1 < bestScore1 \<or> (score1 = bestScore1 \<and> score2 < bestScore2))
             then (newNode, score1, score2, index, i)
             else (bestNode, bestScore1, bestScore2, bestBinIndex, bestSizeIndex)))"

lemma skyline_scanSizes_index:
  "skyline_scanSizes p i sizes best = Inr (n, s1, s2, b, k) \<Longrightarrow>
   k = snd (snd (snd (snd best))) \<or> (i \<le> k \<and> k < i + int (length sizes))"
proof (induction sizes arbitrary: i best)
  case Nil
  then show ?case by auto
next
  case (Cons s rest)
  obtain bn b1 b2 bb bs where best: "best = (bn, b1, b2, bb, bs)" by (cases best) auto
  from Cons.prems show ?case
    unfolding best
    by (auto simp: Let_def split: sum.splits prod.splits if_splits dest!: Cons.IH)
qed

function skyline_Insert :: "Size list \<Rightarrow> skylinePack \<Rightarrow> panic + skylinePack \<times> Size list" where
  "skyline_Insert sizes p =
     (if length sizes > 0 then
        (case skyline_scanSizes p 0 sizes (zeroRect, MaxInt, MaxInt, - 1, - 1) of
           Inl e \<Rightarrow> Inl e
         | Inr (bestNode, bestScore1, bestScore2, bestBinIndex, bestSizeIndex) \<Rightarrow>
             if bestSizeIndex = - 1 then Inr (p, sizes)
             else
               (let p1 = addLevel (nat bestBinIndex) bestNode p;
                    p2 = p1\<lparr>usedArea := usedArea p1 + Area bestNode\<rparr>;
                    bestNode1 = (unpadRect bestNode (padding p2))
                                  \<lparr>ID := ID (sizes ! nat bestSizeIndex)\<rparr>;
                    p3 = p2\<lparr>packed := packed p2 @ [bestNode1]\<rparr>
                in skyline_Insert (slices_Delete sizes (nat bestSizeIndex) (nat bestSizeIndex + 1)) p3))
      else Inr (p, sizes))"
  by pat_completeness auto
termination
proof (relation "measure (\<lambda>(sizes, p). length sizes)", goal_cases)
  case 1
  show ?case by simp
next
  case (2 sizes p res bestNode r1 bestScore1 r2 bestScore2 r3 bestBinIndex bestSizeIndex)
  then have "skyline_scanSizes p 0 sizes (zeroRect, MaxInt, MaxInt, - 1, - 1)
      = Inr (bestNode, bestScore1, bestScore2, bestBinIndex, bestSizeIndex)"
    by simp
  from skyline_scanSizes_index[OF this] 2 have "nat bestSizeIndex < length sizes"
    by auto
  then show ?case by (simp add: slices_Delete_def)
qed

declare skyline_Insert.simps [simp del]

section \<open>Sort comparators (sort.go)\<close>

type_synonym SortFunc = "Size \<Rightarrow> Size \<Rightarrow> int"

text \<open>\<^verbatim>\<open>cmp.Compare\<close> on integers.\<close>

definition cmp_Compare :: "int \<Rightarrow> int \<Rightarrow> int" where
  "cmp_Compare x y = (if x < y then - 1 else if x > y then 1 else 0)"

definition SortArea :: SortFunc where
  "SortArea a b = cmp_Compare (Area b) (Area a)"

text \<open>
  \<^verbatim>\<open>slices.SortFunc\<close> and \<^verbatim>\<open>slices.Reverse\<close> belong to Go's standard library. The sort is
  modelled by the insertion sort that the library runs on slices of fewer than twelve
  elements: each element in turn moves towards the front past every element it is
  smaller than. \<open>insertBack\<close> works on the sorted prefix held in reverse. On longer
  slices the library's result is again a permutation sorted by the comparator, but may
  order elements that compare equal differently.
\<close>

fun insertBack :: "('a \<Rightarrow> 'a \<Rightarrow> int) \<Rightarrow> 'a \<Rightarrow> 'a list \<Rightarrow> 'a list" where
  "insertBack cmp x [] = [x]"
| "insertBack cmp x (y # ys) = (if cmp x y < 0 then y # insertBack cmp x ys else x # y # ys)"

definition slices_SortFunc :: "('a \<Rightarrow> 'a \<Rightarrow> int) \<Rightarrow> 'a list \<Rightarrow> 'a list" where
  "slices_SortFunc cmp xs = rev (fold (insertBack cmp) xs [])"

definition slices_Reverse :: "'a list \<Rightarrow> 'a list" where
  "slices_Reverse xs = rev xs"

section \<open>Packer (packer.go)\<close>

text \<open>
  The interface \<^verbatim>\<open>packAlgorithm\<close> has three implementations; the interface value held
  by the packer is one of them.
\<close>

datatype packAlgorithm =
  MaxRectsAlgo maxRects | SkylineAlgo skylinePack | GuillotineAlgo guillotinePack

fun algo_Rects :: "packAlgorithm \<Rightarrow> Rect list" where
  "algo_Rects (MaxRectsAlgo m) = packed m"
| "algo_Rects (SkylineAlgo s) = packed s"
| "algo_Rects (GuillotineAlgo g) = packed g"

fun algo_MaxSize :: "packAlgorithm \<Rightarrow> Size" where
  "algo_MaxSize (MaxRectsAlgo m) = NewSize (maxWidth m) (maxHeight m)"
| "algo_MaxSize (SkylineAlgo s) = NewSize (maxWidth s) (maxHeight s)"
| "algo_MaxSize (GuillotineAlgo g) = NewSize (maxWidth g) (maxHeight g)"

fun algo_UsedArea :: "packAlgorithm \<Rightarrow> int" where
  "algo_UsedArea (MaxRectsAlgo m) = usedArea m"
| "algo_UsedArea (SkylineAlgo s) = usedArea s"
| "algo_UsedArea (GuillotineAlgo g) = usedArea g"

fun algo_AllowFlip :: "bool \<Rightarrow> packAlgorithm \<Rightarrow> packAlgorithm" where
  "algo_AllowFlip enabled (MaxRectsAlgo m) = MaxRectsAlgo (algorithmBase_AllowFlip enabled m)"
| "algo_AllowFlip enabled (SkylineAlgo s) = SkylineAlgo (algorithmBase_AllowFlip enabled s)"
| "algo_AllowFlip enabled (GuillotineAlgo g) = GuillotineAlgo (algorithmBase_AllowFlip enabled g)"

fun algo_Reset :: "int \<Rightarrow> int \<Rightarrow> packAlgorithm \<Rightarrow> panic + packAlgorithm" where
  "algo_Reset w h (MaxRectsAlgo m) = map_sum id MaxRectsAlgo (maxRects_Reset w h m)"
| "algo_Reset w h (SkylineAlgo s) = map_sum id SkylineAlgo (skyline_Reset w h s)"
| "algo_Reset w h (GuillotineAlgo g) = map_sum id GuillotineAlgo (guillotine_Reset w h g)"

text \<open>
  The packer calls \<^verbatim>\<open>p.algo.Insert(p.Padding, sizes...)\<close>. The Guillotine engine takes
  the padding as this first argument. The MaxRects and Skyline engines declare
  \<^verbatim>\<open>Insert(sizes ...Size)\<close> and read the padding from the field that the interface's
  \<^verbatim>\<open>Padding\<close> setter writes; for them the call is modelled as that setter followed by
  \<^verbatim>\<open>Insert\<close>.
\<close>

fun algo_Insert :: "int \<Rightarrow> Size list \<Rightarrow> packAlgorithm \<Rightarrow> panic + packAlgorithm \<times> Size list" where
  "algo_Insert pad sizes (MaxRectsAlgo m) =
     Inr (map_prod MaxRectsAlgo id (maxRects_Insert sizes (algorithmBase_Padding pad m)))"
| "algo_Insert pad sizes (SkylineAlgo s) =
     map_sum id (map_prod SkylineAlgo id) (skyline_Insert sizes (algorithmBase_Padding pad s))"
| "algo_Insert pad sizes (GuillotineAlgo g) =
     Inr (map_prod GuillotineAlgo id (guillotine_Insert pad sizes g))"

record Packer =
  unpacked :: "Size list"
  algo :: packAlgorithm
  sortFunc :: "SortFunc option"
  Padding :: int
  sortRev :: bool
  Online :: bool

definition Packer_Size :: "Packer \<Rightarrow> Size" where
  "Packer_Size p =
     fold (\<lambda>rect sz. sz\<lparr>Width := max (Width sz) (Right rect + Padding p),
                         Height := max (Height sz) (Bottom rect + Padding p)\<rparr>)
       (algo_Rects (algo p)) (NewSize 0 0)"


definition Sorter :: "SortFunc option \<Rightarrow> bool \<Rightarrow> Packer \<Rightarrow> Packer" where
  "Sorter compare reverse p = p\<lparr>sortFunc := compare, sortRev := reverse\<rparr>"

definition Packer_Rects :: "Packer \<Rightarrow> Rect list" where
  "Packer_Rects p = algo_Rects (algo p)"

definition Unpacked :: "Packer \<Rightarrow> Size list" where
  "Unpacked p = unpacked p"

definition Clear :: "Packer \<Rightarrow> panic + Packer" where
  "Clear p =
     (let sz = algo_MaxSize (algo p) in
      case algo_Reset (Width sz) (Height sz) (algo p) of
        Inl e \<Rightarrow> Inl e
      | Inr a \<Rightarrow> Inr (p\<lparr>algo := a, unpacked := []\<rparr>))"

definition Pack :: "Packer \<Rightarrow> panic + Packer \<times> bool" where
  "Pack p =
     (if length (unpacked p) = 0 then Inr (p, True)
      else
        (let p1 =
           (case sortFunc p of
              Some f \<Rightarrow>
                (if sortRev p
                 then p\<lparr>unpacked := slices_SortFunc (\<lambda>a b. f b a) (unpacked p)\<rparr>
                 else p\<lparr>unpacked := slices_SortFunc f (unpacked p)\<rparr>)
            | None \<Rightarrow>
                (if sortRev p then p\<lparr>unpacked := slices_Reverse (unpacked p)\<rparr> else p))
         in case algo_Insert (Padding p1) (unpacked p1) (algo p1) of
              Inl e \<Rightarrow> Inl e
            | Inr (a, failed) \<Rightarrow>
                (let p2 = p1\<lparr>algo := a\<rparr> in
                 if length failed = 0 then Inr (p2\<lparr>unpacked := []\<rparr>, True)
                 else Inr (p2\<lparr>unpacked := failed\<rparr>, False))))"

definition RepackAll :: "Packer \<Rightarrow> panic + Packer \<times> bool" where
  "RepackAll p =
     (let rects = algo_Rects (algo p);
          p1 = p\<lparr>unpacked := unpacked p @ map Rect_Size rects\<rparr>;
          sz = Packer_Size p1
      in case algo_Reset (Width sz) (Height sz) (algo p1) of
           Inl e \<Rightarrow> Inl e
         | Inr a \<Rightarrow> Pack (p1\<lparr>algo := a\<rparr>))"

definition Packer_AllowFlip :: "bool \<Rightarrow> Packer \<Rightarrow> Packer" where
  "Packer_AllowFlip enabled p = p\<lparr>algo := algo_AllowFlip enabled (algo p)\<rparr>"

text \<open>\<^verbatim>\<open>NewPacker\<close> panics on a heuristic whose algorithm nibble names no algorithm.\<close>

definition NewPacker :: "int \<Rightarrow> int \<Rightarrow> Heuristic \<Rightarrow> panic + Packer" where
  "NewPacker w h heuristic =
     (let ty = heuristic AND typeMask;
          a = (if ty = MaxRects then map_sum id MaxRectsAlgo (newMaxRects w h heuristic)
               else if ty = Skyline then map_sum id SkylineAlgo (newSkyline w h heuristic)
               else if ty = Guillotine then map_sum id GuillotineAlgo (newGuillotine w h heuristic)
               else Inl AlgorithmPanic)
      in case a of
           Inl e \<Rightarrow> Inl e
         | Inr a1 \<Rightarrow>
             Inr \<lparr>unpacked = [], algo = a1, sortFunc = Some SortArea, Padding = 0,
                  sortRev = False, Online = False\<rparr>)"

subsection \<open>Properties of the sort\<close>


lemma mset_insertBack: "mset (insertBack cmp x ys) = add_mset x (mset ys)"
  by (induction ys) auto

lemma mset_fold_insertBack: "mset (fold (insertBack cmp) xs acc) = mset xs + mset acc"
  by (induction xs arbitrary: acc) (auto simp: mset_insertBack)

lemma mset_slices_SortFunc: "mset (slices_SortFunc cmp xs) = mset xs"
  by (simp add: slices_SortFunc_def mset_fold_insertBack)

lemma length_slices_SortFunc: "length (slices_SortFunc cmp xs) = length xs"
  using mset_slices_SortFunc[of cmp xs] by (metis size_mset)





subsection \<open>Pack as the specification words it\<close>

text \<open>
  \<open>Pack_spec\<close> follows the specification: success at once on an empty staging list;
  otherwise the staging list is sorted with the comparator (its arguments swapped when
  the reverse flag is set) or, without a comparator, reversed when the flag is set; the
  whole list goes to the algorithm; the sizes it returns become the staging list, and the
  result is whether there are none.
\<close>

definition Pack_spec :: "Packer \<Rightarrow> panic + Packer \<times> bool" where
  "Pack_spec p =
     (if unpacked p = [] then Inr (p, True)
      else
        (let staged =
           (case sortFunc p of
              Some f \<Rightarrow> slices_SortFunc (if sortRev p then (\<lambda>a b. f b a) else f) (unpacked p)
            | None \<Rightarrow> (if sortRev p then rev (unpacked p) else unpacked p))
         in case algo_Insert (Padding p) staged (algo p) of
              Inl e \<Rightarrow> Inl e
            | Inr (a, remainder) \<Rightarrow>
                Inr (p\<lparr>algo := a, unpacked := remainder\<rparr>, remainder = [])))"

lemma Pack_eq_spec: "Pack p = Pack_spec p"
  by (auto simp: Pack_def Pack_spec_def Let_def slices_Reverse_def
      split: option.splits sum.splits prod.splits)


lemma Packer_Size_no_rects: "algo_Rects (algo p) = [] \<Longrightarrow> Packer_Size p = NewSize 0 0"
  by (simp add: Packer_Size_def)

lemma algo_Reset_nonpositive: "w \<le> 0 \<or> h \<le> 0 \<Longrightarrow> algo_Reset w h a = Inl ResetPanic"
  by (cases a)
     (auto simp: maxRects_Reset_def skyline_Reset_def guillotine_Reset_def algorithmBase_Reset_def)

subsection \<open>A concrete packer\<close>

text \<open>The packer that \<^verbatim>\<open>NewPacker(4, 3, GuillotineBAF)\<close> returns, after the offline
  \<^verbatim>\<open>Insert\<close> of four sizes.\<close>

definition stagedPacker :: Packer where
  "stagedPacker =
     \<lparr>unpacked = [NewSizeID 1 2 2, NewSizeID 2 1 3, NewSizeID 3 1 1, NewSizeID 4 1 1],
      algo = GuillotineAlgo
        (guillotine_zero\<lparr>maxWidth := 4, maxHeight := 3, Merge := True,
           guillotinePack.freeRects := [NewRect 0 0 4 3]\<rparr>),
      sortFunc = Some SortArea, Padding = 0, sortRev = False, Online = False\<rparr>"



text \<open>The same packer after \<^verbatim>\<open>Pack\<close>: all four sizes are packed, in the bounding box 3 by 3.\<close>

definition packedPacker :: "Packer" where
  "packedPacker = (case Pack stagedPacker of Inr (q, ok) \<Rightarrow> q | Inl e \<Rightarrow> stagedPacker)"

section \<open>What the engines choose\<close>

subsection \<open>Guillotine: the chosen size fits the chosen free rectangle\<close>

definition guillotine_fits :: "bool \<Rightarrow> Size \<Rightarrow> Rect \<Rightarrow> bool" where
  "guillotine_fits flipped sz f =
     (if flipped then Height sz \<le> Width f \<and> Width sz \<le> Height f
      else Width sz \<le> Width f \<and> Height sz \<le> Height f)"

definition guillotine_goodBest :: "int \<Rightarrow> Rect list \<Rightarrow> Size list \<Rightarrow> guillotineBest \<Rightarrow> bool" where
  "guillotine_goodBest pad frs sizes best =
     (case best of (bestFreeRect, bestRect, bestFlipped, bestScore) \<Rightarrow>
        bestScore \<le> MaxInt \<and>
        (bestScore \<noteq> MaxInt \<longrightarrow>
           bestFreeRect < length frs \<and> bestRect < length sizes \<and>
           guillotine_fits bestFlipped (padSize (sizes ! bestRect) pad) (frs ! bestFreeRect)))"

lemma guillotine_scanSizes_good:
  "guillotine_goodBest pad frs sizes best \<Longrightarrow> i < length frs \<Longrightarrow> j \<le> length sizes \<Longrightarrow>
   guillotine_goodBest pad frs sizes
     (guillotine_scanSizes p pad i (frs ! i) j (drop j sizes) best)"
proof (induction "length sizes - j" arbitrary: j best)
  case 0
  then show ?case by simp
next
  case (Suc n)
  then have j: "j < length sizes" by simp
  then have dr: "drop j sizes = sizes ! j # drop (j + 1) sizes"
    by (simp add: Cons_nth_drop_Suc)
  obtain a b c d where best: "best = (a, b, c, d)" by (cases best) auto
  have d: "d \<le> MaxInt" using Suc.prems(1) by (simp add: best guillotine_goodBest_def)
  have IH: "guillotine_goodBest pad frs sizes best' \<Longrightarrow>
      guillotine_goodBest pad frs sizes
        (guillotine_scanSizes p pad i (frs ! i) (j + 1) (drop (j + 1) sizes) best')" for best'
    using Suc.hyps(1)[of "j + 1" best'] Suc.hyps(2) Suc.prems(2) j by simp
  have perfect: "guillotine_goodBest pad frs sizes (i, j, fl, MinInt)"
    if "guillotine_fits fl (padSize (sizes ! j) pad) (frs ! i)" for fl
    using that Suc.prems(2) j by (simp add: guillotine_goodBest_def MinInt_def MaxInt_def)
  have better: "guillotine_goodBest pad frs sizes (i, j, fl, sc)"
    if "guillotine_fits fl (padSize (sizes ! j) pad) (frs ! i)" "sc < d" for fl sc
    using that Suc.prems(2) j d by (simp add: guillotine_goodBest_def)
  show ?case
    unfolding dr best
    using IH perfect better Suc.prems(1)[unfolded best]
    by (auto simp: Let_def guillotine_fits_def)
qed

lemma guillotine_scanFree_good:
  "guillotine_goodBest pad frs sizes best \<Longrightarrow> i \<le> length frs \<Longrightarrow>
   guillotine_goodBest pad frs sizes (guillotine_scanFree p pad sizes i (drop i frs) best)"
proof (induction "length frs - i" arbitrary: i best)
  case 0
  then show ?case by simp
next
  case (Suc n)
  then have i: "i < length frs" by simp
  then have dr: "drop i frs = frs ! i # drop (i + 1) frs"
    by (simp add: Cons_nth_drop_Suc)
  have "guillotine_goodBest pad frs sizes (guillotine_scanSizes p pad i (frs ! i) 0 (drop 0 sizes) best)"
    using Suc.prems(1) i by (intro guillotine_scanSizes_good) auto
  then show ?case
    unfolding dr using Suc.hyps(1)[of "i + 1"] Suc.hyps(2) i by simp
qed

lemma guillotine_scanFree_chosen:
  assumes "guillotine_scanFree p pad sizes 0 (guillotinePack.freeRects p) (a, b, c, MaxInt) = (a', b', c', sc)"
    and "sc \<noteq> MaxInt"
  shows "a' < length (guillotinePack.freeRects p) \<and> b' < length sizes \<and>
         guillotine_fits c' (padSize (sizes ! b') pad) (guillotinePack.freeRects p ! a')"
proof -
  have "guillotine_goodBest pad (guillotinePack.freeRects p) sizes (a, b, c, MaxInt)"
    by (simp add: guillotine_goodBest_def)
  from guillotine_scanFree_good[OF this, of 0 p] assms show ?thesis
    by (simp add: guillotine_goodBest_def)
qed

text \<open>An invariant of the rounds of \<^verbatim>\<open>Insert\<close> holds of its result.\<close>

lemma guillotine_Insert_loop_rule:
  assumes init: "P sizes p"
    and step: "\<And>sizes p a b c.
        P sizes p \<Longrightarrow> a < length (guillotinePack.freeRects p) \<Longrightarrow> b < length sizes \<Longrightarrow>
        guillotine_fits c (padSize (sizes ! b) pad) (guillotinePack.freeRects p ! a) \<Longrightarrow>
        P (slices_Delete sizes b (b + 1))
          (guillotine_place pad a
             (guillotine_newNode (guillotinePack.freeRects p ! a) (sizes ! b) c) p)"
  shows "P (snd (guillotine_Insert_loop pad best sizes p))
           (fst (guillotine_Insert_loop pad best sizes p))"
  using init step
proof (induction pad best sizes p rule: guillotine_Insert_loop.induct)
  case (1 pad bestFreeRect bestRect bestFlipped sizes p)
  show ?case
  proof (cases "length sizes > 0")
    case False
    with "1.prems" show ?thesis by (simp add: guillotine_Insert_loop.simps)
  next
    case True
    obtain a b c sc where scan: "guillotine_scanFree p pad sizes 0 (guillotinePack.freeRects p)
        (bestFreeRect, bestRect, bestFlipped, MaxInt) = (a, b, c, sc)"
      by (metis prod_cases4)
    show ?thesis
    proof (cases "sc = MaxInt")
      case True
      with \<open>length sizes > 0\<close> scan "1.prems" show ?thesis
        by (simp add: guillotine_Insert_loop.simps)
    next
      case False
      note ch = guillotine_scanFree_chosen[OF scan False]
      define node where "node = guillotine_newNode (guillotinePack.freeRects p ! a) (sizes ! b) c"
      define p2 where "p2 = guillotine_place pad a node p"
      define sizes2 where "sizes2 = slices_Delete sizes b (b + 1)"
      have unfold: "guillotine_Insert_loop pad (bestFreeRect, bestRect, bestFlipped) sizes p
          = guillotine_Insert_loop pad (a, b, c) sizes2 p2"
        using True scan False
        by (simp add: guillotine_Insert_loop.simps[of pad bestFreeRect bestRect bestFlipped sizes p]
            Let_def node_def p2_def sizes2_def)
      have "P sizes2 p2"
        unfolding sizes2_def p2_def node_def
        using "1.prems"(2)[OF "1.prems"(1)] ch by blast
      from "1.IH"[OF True scan[symmetric] refl refl False node_def p2_def sizes2_def this "1.prems"(2)]
      show ?thesis
        unfolding unfold by blast
    qed
  qed
qed

subsection \<open>MaxRects: the chosen node lies in a free rectangle\<close>

definition placedIn :: "Rect \<Rightarrow> Rect \<Rightarrow> bool" where
  "placedIn n f \<longleftrightarrow> X n = X f \<and> Y n = Y f \<and> Width n \<le> Width f \<and> Height n \<le> Height f"

lemma fold_invariant:
  assumes "Q acc" and "\<And>x acc. x \<in> set xs \<Longrightarrow> Q acc \<Longrightarrow> Q (f x acc)"
  shows "Q (fold f xs acc)"
  using assms by (induction xs arbitrary: acc) auto

definition foundIn :: "Rect list \<Rightarrow> Rect \<Rightarrow> bool" where
  "foundIn frs n \<longleftrightarrow> Height n = 0 \<or> (\<exists>f\<in>set frs. placedIn n f)"

lemma foundIn_placeAt:
  "f \<in> set frs \<Longrightarrow> w \<le> Width f \<Longrightarrow> h \<le> Height f \<Longrightarrow> foundIn frs (placeAt n f w h)"
  "f \<in> set frs \<Longrightarrow> w \<le> Width f \<Longrightarrow> h \<le> Height f \<Longrightarrow>
   foundIn frs ((placeAt n f w h)\<lparr>Flipped := b\<rparr>)"
  by (auto simp: foundIn_def placedIn_def placeAt_def)

lemma let_invariant: "Q a \<Longrightarrow> (\<And>b. Q b \<Longrightarrow> R (g b)) \<Longrightarrow> R (Let a g)"
  by simp

lemma findPositionBottomLeft_step_found:
  "f \<in> set frs \<Longrightarrow> foundIn frs (fst acc) \<Longrightarrow>
   foundIn frs (fst (findPositionBottomLeft_step flip w h f acc))"
  unfolding findPositionBottomLeft_step_def
  apply (rule let_invariant[where Q = "\<lambda>a. foundIn frs (fst a)"])
  subgoal by (cases acc) (simp add: Let_def foundIn_placeAt)
  subgoal for b by (cases b) (simp add: Let_def foundIn_placeAt)
  done

lemma findPositionBestShortSideFit_step_found:
  "f \<in> set frs \<Longrightarrow> foundIn frs (fst acc) \<Longrightarrow>
   foundIn frs (fst (findPositionBestShortSideFit_step flip w h f acc))"
  unfolding findPositionBestShortSideFit_step_def
  apply (rule let_invariant[where Q = "\<lambda>a. foundIn frs (fst a)"])
  subgoal by (cases acc) (simp add: Let_def foundIn_placeAt)
  subgoal for b by (cases b) (simp add: Let_def foundIn_placeAt)
  done

lemma findPositionBestLongSideFit_step_found:
  "f \<in> set frs \<Longrightarrow> foundIn frs (fst acc) \<Longrightarrow>
   foundIn frs (fst (findPositionBestLongSideFit_step flip w h f acc))"
  unfolding findPositionBestLongSideFit_step_def
  apply (rule let_invariant[where Q = "\<lambda>a. foundIn frs (fst a)"])
  subgoal by (cases acc) (simp add: Let_def foundIn_placeAt)
  subgoal for b by (cases b) (simp add: Let_def foundIn_placeAt)
  done

lemma findPositionBestAreaFit_step_found:
  "f \<in> set frs \<Longrightarrow> foundIn frs (fst acc) \<Longrightarrow>
   foundIn frs (fst (findPositionBestAreaFit_step flip w h f acc))"
  unfolding findPositionBestAreaFit_step_def
  apply (subst Let_def)
  apply (rule let_invariant[where Q = "\<lambda>a. foundIn frs (fst a)"])
  subgoal by (cases acc) (simp add: Let_def foundIn_placeAt)
  subgoal for b by (cases b) (simp add: Let_def foundIn_placeAt)
  done

lemma findPositionContactPoint_step_found:
  "f \<in> set frs \<Longrightarrow> foundIn frs (fst acc) \<Longrightarrow>
   foundIn frs (fst (findPositionContactPoint_step p w h f acc))"
  unfolding findPositionContactPoint_step_def
  apply (rule let_invariant[where Q = "\<lambda>a. foundIn frs (fst a)"])
  subgoal by (cases acc) (simp add: Let_def foundIn_placeAt)
  subgoal for b by (cases b) (simp add: Let_def foundIn_placeAt)
  done

lemma foundIn_zeroRect [simp]: "foundIn frs zeroRect"
  by (simp add: foundIn_def zeroRect_def)

lemma apply_findNode_found:
  "foundIn (maxRects.freeRects p) (fst (apply_findNode hf p w h))"
proof (cases hf)
  case FindPositionBestAreaFit
  have "foundIn (maxRects.freeRects p) (fst (fold (findPositionBestAreaFit_step (allowFlip p) w h)
      (maxRects.freeRects p) (zeroRect, MaxInt, MaxInt)))"
    by (rule fold_invariant[where Q = "\<lambda>acc. foundIn (maxRects.freeRects p) (fst acc)"])
       (simp_all add: findPositionBestAreaFit_step_found)
  with FindPositionBestAreaFit show ?thesis by (simp add: findPositionBestAreaFit_def)
next
  case FindPositionBottomLeft
  have "foundIn (maxRects.freeRects p) (fst (fold (findPositionBottomLeft_step (allowFlip p) w h)
      (maxRects.freeRects p) (zeroRect, MaxInt, MaxInt)))"
    by (rule fold_invariant[where Q = "\<lambda>acc. foundIn (maxRects.freeRects p) (fst acc)"])
       (simp_all add: findPositionBottomLeft_step_found)
  with FindPositionBottomLeft show ?thesis by (simp add: findPositionBottomLeft_def)
next
  case FindPositionContactPoint
  have "foundIn (maxRects.freeRects p) (fst (fold (findPositionContactPoint_step p w h)
      (maxRects.freeRects p) (zeroRect, - 1)))"
    by (rule fold_invariant[where Q = "\<lambda>acc. foundIn (maxRects.freeRects p) (fst acc)"])
       (simp_all add: findPositionContactPoint_step_found)
  with FindPositionContactPoint show ?thesis
    by (simp add: findPositionContactPoint_def case_prod_beta)
next
  case FindPositionBestLongSideFit
  have "foundIn (maxRects.freeRects p) (fst (fold (findPositionBestLongSideFit_step (allowFlip p) w h)
      (maxRects.freeRects p) (zeroRect, MaxInt, MaxInt)))"
    by (rule fold_invariant[where Q = "\<lambda>acc. foundIn (maxRects.freeRects p) (fst acc)"])
       (simp_all add: findPositionBestLongSideFit_step_found)
  with FindPositionBestLongSideFit show ?thesis by (simp add: findPositionBestLongSideFit_def)
next
  case FindPositionBestShortSideFit
  have "foundIn (maxRects.freeRects p) (fst (fold (findPositionBestShortSideFit_step (allowFlip p) w h)
      (maxRects.freeRects p) (zeroRect, MaxInt, MaxInt)))"
    by (rule fold_invariant[where Q = "\<lambda>acc. foundIn (maxRects.freeRects p) (fst acc)"])
       (simp_all add: findPositionBestShortSideFit_step_found)
  with FindPositionBestShortSideFit show ?thesis by (simp add: findPositionBestShortSideFit_def)
qed

lemma maxRects_scoreRect_found:
  assumes "maxRects_scoreRect p w h = (n, s1, s2)"
  shows "(s1 = MaxInt \<and> s2 = MaxInt) \<or> (\<exists>f\<in>set (maxRects.freeRects p). placedIn n f)"
proof -
  obtain n' a b where r: "apply_findNode (findNode p) p w h = (n', a, b)"
    by (metis prod_cases3)
  from apply_findNode_found[of p "findNode p" w h] r have "foundIn (maxRects.freeRects p) n'"
    by simp
  with assms r show ?thesis
    by (auto simp: maxRects_scoreRect_def foundIn_def split: if_splits)
qed

definition maxRects_goodBest :: "maxRects \<Rightarrow> Size list \<Rightarrow> maxRectsBest \<Rightarrow> bool" where
  "maxRects_goodBest p sizes best =
     (case best of (bestNode, bestScore1, bestScore2, bestRectIndex) \<Rightarrow>
        (bestScore1 < MaxInt \<or> (bestScore1 = MaxInt \<and> bestScore2 \<le> MaxInt)) \<and>
        (bestRectIndex = - 1 \<or>
           (0 \<le> bestRectIndex \<and> nat bestRectIndex < length sizes \<and>
            ID bestNode = ID (sizes ! nat bestRectIndex) \<and>
            (\<exists>f\<in>set (maxRects.freeRects p). placedIn bestNode f))))"

lemma maxRects_scanSizes_good:
  "maxRects_goodBest p sizes best \<Longrightarrow> j \<le> length sizes \<Longrightarrow>
   maxRects_goodBest p sizes (maxRects_scanSizes p (int j) (drop j sizes) best)"
proof (induction "length sizes - j" arbitrary: j best)
  case 0
  then show ?case by simp
next
  case (Suc n)
  then have j: "j < length sizes" by simp
  then have dr: "drop j sizes = sizes ! j # drop (j + 1) sizes"
    by (simp add: Cons_nth_drop_Suc)
  obtain bn b1 b2 bi where best: "best = (bn, b1, b2, bi)" by (cases best) auto
  obtain nn s1 s2 where sc: "maxRects_scoreRect p (Width (padSize (sizes ! j) (padding p)))
      (Height (padSize (sizes ! j) (padding p))) = (nn, s1, s2)"
    by (metis prod_cases3)
  have IH: "maxRects_goodBest p sizes best' \<Longrightarrow>
      maxRects_goodBest p sizes (maxRects_scanSizes p (int j + 1) (drop (j + 1) sizes) best')" for best'
    using Suc.hyps(1)[of "j + 1" best'] Suc.hyps(2) j by (simp add: add.commute)
  have idpad: "ID (padSize s pd) = ID s" for s pd
    by (simp add: padSize_def)
  have new: "maxRects_goodBest p sizes (nn\<lparr>ID := ID (padSize (sizes ! j) (padding p))\<rparr>, s1, s2, int j)"
    if "s1 < b1 \<or> (s1 = b1 \<and> s2 < b2)"
    using that maxRects_scoreRect_found[OF sc] Suc.prems(1) j
    by (auto simp: maxRects_goodBest_def best placedIn_def idpad)
  show ?case
    unfolding dr best
    using IH new Suc.prems(1)[unfolded best] sc
    by (simp add: Let_def)
qed

lemma maxRects_scanSizes_chosen:
  assumes "maxRects_scanSizes p 0 sizes (zeroRect, MaxInt, MaxInt, - 1) = (node, s1, s2, k)"
    and "k \<noteq> - 1"
  shows "0 \<le> k \<and> nat k < length sizes \<and> ID node = ID (sizes ! nat k) \<and>
         (\<exists>f\<in>set (maxRects.freeRects p). placedIn node f)"
proof -
  have "maxRects_goodBest p sizes (zeroRect, MaxInt, MaxInt, - 1)"
    by (simp add: maxRects_goodBest_def)
  from maxRects_scanSizes_good[OF this, of 0] assms show ?thesis
    by (simp add: maxRects_goodBest_def)
qed

text \<open>One round of \<^verbatim>\<open>Insert\<close>: the state after \<^verbatim>\<open>placeRect\<close> and the append to the packed
  list.\<close>

definition maxRects_place :: "Rect \<Rightarrow> maxRects \<Rightarrow> maxRects" where
  "maxRects_place node p =
     (let p1 = placeRect node p
      in p1\<lparr>packed := packed p1 @ [unpadRect node (padding p1)]\<rparr>)"

lemma maxRects_Insert_rule:
  assumes init: "P sizes p"
    and step: "\<And>sizes p node k.
        P sizes p \<Longrightarrow> k < length sizes \<Longrightarrow> ID node = ID (sizes ! k) \<Longrightarrow>
        \<exists>f\<in>set (maxRects.freeRects p). placedIn node f \<Longrightarrow>
        P (swapRemove sizes k) (maxRects_place node p)"
  shows "P (snd (maxRects_Insert sizes p)) (fst (maxRects_Insert sizes p))"
  using init
proof (induction sizes p rule: maxRects_Insert.induct)
  case (1 sizes p)
  show ?case
  proof (cases "length sizes > 0")
    case False
    with "1.prems" show ?thesis by (simp add: maxRects_Insert.simps)
  next
    case True
    obtain node s1 s2 k where scan:
      "maxRects_scanSizes p 0 sizes (zeroRect, MaxInt, MaxInt, - 1) = (node, s1, s2, k)"
      by (metis prod_cases4)
    show ?thesis
    proof (cases "k = - 1")
      case True
      with \<open>length sizes > 0\<close> scan "1.prems" show ?thesis
        by (simp add: maxRects_Insert.simps)
    next
      case False
      note ch = maxRects_scanSizes_chosen[OF scan False]
      define p1 where "p1 = placeRect node p"
      define p2 where "p2 = p1\<lparr>packed := packed p1 @ [unpadRect node (padding p1)]\<rparr>"
      have p2: "p2 = maxRects_place node p"
        by (simp add: p2_def p1_def maxRects_place_def Let_def)
      have unfold: "maxRects_Insert sizes p = maxRects_Insert (swapRemove sizes (nat k)) p2"
        using True scan False
        by (simp add: maxRects_Insert.simps[of sizes p] Let_def p1_def p2_def)
      have "P (swapRemove sizes (nat k)) p2"
        unfolding p2 using step[OF "1.prems"] ch by blast
      from "1.IH"[OF True scan[symmetric] refl refl False p1_def p2_def this]
      show ?thesis
        unfolding unfold .
    qed
  qed
qed

subsection \<open>Skyline: the shape of the profile and what \<^verbatim>\<open>testFit\<close> computes\<close>

text \<open>
  \<open>skyline_chain x sk e\<close>: the nodes of \<open>sk\<close> have positive widths, the first starts at
  \<open>x\<close>, each starts where the one before ends, and the last ends at \<open>e\<close>.
\<close>

fun skyline_chain :: "int \<Rightarrow> skylineNode list \<Rightarrow> int \<Rightarrow> bool" where
  "skyline_chain x [] e = (x = e)"
| "skyline_chain x (n # ns) e =
     (skylineNode.X n = x \<and> skylineNode.Width n > 0 \<and>
      skyline_chain (x + skylineNode.Width n) ns e)"


lemma skyline_chain_le: "skyline_chain x sk e \<Longrightarrow> x \<le> e"
  by (induction sk arbitrary: x) fastforce+

lemma skyline_chain_bounds:
  "skyline_chain x sk e \<Longrightarrow> n \<in> set sk \<Longrightarrow>
   x \<le> skylineNode.X n \<and> skylineNode.X n + skylineNode.Width n \<le> e \<and> skylineNode.Width n > 0"
proof (induction sk arbitrary: x)
  case Nil
  then show ?case by simp
next
  case (Cons a sk)
  show ?case
  proof (cases "n = a")
    case True
    with Cons.prems skyline_chain_le[of "x + skylineNode.Width a" sk e] show ?thesis by simp
  next
    case False
    with Cons.prems have "n \<in> set sk" "skyline_chain (x + skylineNode.Width a) sk e"
      "skylineNode.Width a > 0" by auto
    with Cons.IH[of "x + skylineNode.Width a"] show ?thesis by fastforce
  qed
qed

lemma skyline_chain_unique_end: "skyline_chain x sk e \<Longrightarrow> skyline_chain x sk e' \<Longrightarrow> e = e'"
  by (induction sk arbitrary: x) auto

lemma skyline_chain_drop:
  "skyline_chain x sk e \<Longrightarrow> i < length sk \<Longrightarrow>
   skyline_chain (skylineNode.X (sk ! i)) (drop i sk) e"
proof (induction sk arbitrary: x i)
  case Nil
  then show ?case by simp
next
  case (Cons a sk)
  then show ?case by (cases i) auto
qed


text \<open>Every point between the start and the end of a chain lies over one of its nodes.\<close>

lemma skyline_chain_covers:
  "skyline_chain x sk e \<Longrightarrow> x \<le> t \<Longrightarrow> t < e \<Longrightarrow>
   \<exists>n\<in>set sk. skylineNode.X n \<le> t \<and> t < skylineNode.X n + skylineNode.Width n"
proof (induction sk arbitrary: x)
  case Nil
  then show ?case by simp
next
  case (Cons a sk)
  show ?case
  proof (cases "t < x + skylineNode.Width a")
    case True
    with Cons.prems show ?thesis by auto
  next
    case False
    with Cons.prems Cons.IH[of "x + skylineNode.Width a"] show ?thesis by auto
  qed
qed

definition skyline_valid :: "skylinePack \<Rightarrow> bool" where
  "skyline_valid p \<longleftrightarrow> skyline_chain 0 (skyline p) (maxWidth p)"

text \<open>
  On a chain that reaches at least the right edge \<open>t\<close> of the rectangle, the loop of
  \<^verbatim>\<open>testFit\<close> never reads past the end, and the height it returns is at least the height
  of every node that starts left of \<open>t\<close>.
\<close>

lemma testFit_loop_spec:
  assumes "skyline_chain xi (drop i (skyline p)) e" "i \<le> length (skyline p)"
    "widthLeft = t - xi" "t \<le> e"
  shows "\<exists>r. testFit_loop p h widthLeft i y = Inr r \<and>
           (\<forall>y'. r = Some y' \<longrightarrow> y \<le> y' \<and>
              (\<forall>n\<in>set (drop i (skyline p)). skylineNode.X n < t \<longrightarrow> skylineNode.Y n \<le> y'))"
  using assms
proof (induction p h widthLeft i y arbitrary: xi rule: testFit_loop.induct)
  case (1 p h widthLeft i y)
  show ?case
  proof (cases "widthLeft > 0")
    case False
    have "\<forall>n\<in>set (drop i (skyline p)). \<not> skylineNode.X n < t"
      using skyline_chain_bounds[OF "1.prems"(1)] False "1.prems"(3) by fastforce
    with False show ?thesis by (simp add: testFit_loop.simps[of p h widthLeft i y])
  next
    case True
    have i: "i < length (skyline p)"
    proof (rule ccontr)
      assume "\<not> i < length (skyline p)"
      with "1.prems"(1) have "xi = e" by simp
      with True "1.prems"(3,4) show False by simp
    qed
    then have dr: "drop i (skyline p) = skyline p ! i # drop (i + 1) (skyline p)"
      by (simp add: Cons_nth_drop_Suc)
    define y1 where "y1 = max y (skylineNode.Y (skyline p ! i))"
    show ?thesis
    proof (cases "y1 + h > maxHeight p")
      case True
      with \<open>widthLeft > 0\<close> i show ?thesis
        by (simp add: testFit_loop.simps[of p h widthLeft i y] y1_def Let_def)
    next
      case False
      have ch: "skyline_chain (xi + skylineNode.Width (skyline p ! i)) (drop (i + 1) (skyline p)) e"
        and xi: "skylineNode.X (skyline p ! i) = xi"
        using "1.prems"(1) unfolding dr by auto
      from "1.IH"[OF True i y1_def False ch] i "1.prems"(3,4)
      obtain r where r: "testFit_loop p h (widthLeft - skylineNode.Width (skyline p ! i)) (i + 1) y1 = Inr r"
        and r2: "\<forall>y'. r = Some y' \<longrightarrow> y1 \<le> y' \<and>
             (\<forall>n\<in>set (drop (i + 1) (skyline p)). skylineNode.X n < t \<longrightarrow> skylineNode.Y n \<le> y')"
        by auto
      have eq: "testFit_loop p h widthLeft i y = Inr r"
        using True i False r by (simp add: testFit_loop.simps[of p h widthLeft i y] y1_def Let_def)
      show ?thesis
        unfolding eq dr using r2 by (auto simp: y1_def)
    qed
  qed
qed

lemma testFit_spec:
  assumes "skyline_valid p" "index < length (skyline p)"
  shows "\<exists>r. testFit p index w h = Inr r \<and>
           (\<forall>y. r = Some y \<longrightarrow>
              skylineNode.X (skyline p ! index) + w \<le> maxWidth p \<and>
              (\<forall>n\<in>set (drop index (skyline p)).
                  skylineNode.X n < skylineNode.X (skyline p ! index) + w \<longrightarrow> skylineNode.Y n \<le> y))"
proof (cases "skylineNode.X (skyline p ! index) + w > maxWidth p")
  case True
  with assms(2) show ?thesis by (simp add: testFit_def)
next
  case False
  have ch: "skyline_chain (skylineNode.X (skyline p ! index)) (drop index (skyline p)) (maxWidth p)"
    using assms skyline_chain_drop by (simp add: skyline_valid_def)
  from testFit_loop_spec[OF ch, of w "skylineNode.X (skyline p ! index) + w" h
      "skylineNode.Y (skyline p ! index)"] assms(2) False
  show ?thesis by (auto simp: testFit_def)
qed

subsection \<open>Skyline: the chosen node rests on the profile\<close>

text \<open>
  \<open>skyline_placed p w h n idx\<close>: the node \<open>n\<close> has the dimensions \<open>w\<close> by \<open>h\<close> in one of
  the two orientations, starts at the skyline node \<open>idx\<close>, and \<^verbatim>\<open>testFit\<close> at that node
  returned its \<open>Y\<close>.
\<close>

definition skyline_placed :: "skylinePack \<Rightarrow> int \<Rightarrow> int \<Rightarrow> Rect \<Rightarrow> int \<Rightarrow> bool" where
  "skyline_placed p w h n idx \<longleftrightarrow>
     0 \<le> idx \<and> nat idx < length (skyline p) \<and>
     X n = skylineNode.X (skyline p ! nat idx) \<and>
     ((Width n = w \<and> Height n = h) \<or> (Width n = h \<and> Height n = w)) \<and>
     testFit p (nat idx) (Width n) (Height n) = Inr (Some (Y n))"

definition skyline_foundOk :: "skylinePack \<Rightarrow> int \<Rightarrow> int \<Rightarrow> skylineFound \<Rightarrow> bool" where
  "skyline_foundOk p w h acc =
     (case acc of (n, s1, s2, idx) \<Rightarrow> Height n = 0 \<or> skyline_placed p w h n idx)"

lemma findBottomLeft_update_ok:
  assumes "skyline_foundOk p w h acc" "i < length (skyline p)"
    "testFit p i w' h' = Inr (Some y)" "(w' = w \<and> h' = h) \<or> (w' = h \<and> h' = w)"
  shows "skyline_foundOk p w h (findBottomLeft_update p i w' h' fl y acc)"
  using assms
  by (cases acc) (auto simp: findBottomLeft_update_def skyline_foundOk_def skyline_placed_def Let_def)

lemma findMinWaste_update_ok:
  assumes "skyline_foundOk p w h acc" "i < length (skyline p)"
    "testFit p i w' h' = Inr (Some y)" "(w' = w \<and> h' = h) \<or> (w' = h \<and> h' = w)"
  shows "skyline_foundOk p w h (findMinWaste_update p i w' h' fl (y, wasted) acc)"
  using assms
  by (cases acc) (auto simp: findMinWaste_update_def skyline_foundOk_def skyline_placed_def Let_def)

lemma findBottomLeft_loop_ok:
  "skyline_foundOk p w h acc \<Longrightarrow>
   (skyline_valid p \<longrightarrow> (\<exists>r. findBottomLeft_loop p w h i acc = Inr r)) \<and>
   (\<forall>r. findBottomLeft_loop p w h i acc = Inr r \<longrightarrow> skyline_foundOk p w h r)"
proof (induction p w h i acc rule: findBottomLeft_loop.induct)
  case (1 p w h i acc)
  show ?case
  proof (cases "i < length (skyline p)")
    case False
    then have eq: "findBottomLeft_loop p w h i acc = Inr acc"
      by (simp add: findBottomLeft_loop.simps[of p w h i acc])
    show ?thesis
      unfolding eq using "1.prems" by blast
  next
    case i: True
    show ?thesis
    proof (cases "testFit p i w h")
      case (Inl e)
      with i testFit_spec[of p i w h] show ?thesis
        by (auto simp: findBottomLeft_loop.simps[of p w h i acc])
    next
      case (Inr r1)
      define acc1 where "acc1 = (case r1 of None \<Rightarrow> acc
                          | Some y \<Rightarrow> findBottomLeft_update p i w h False y acc)"
      have ok1: "skyline_foundOk p w h acc1"
        using "1.prems" Inr i
        by (cases r1) (auto simp: acc1_def intro: findBottomLeft_update_ok)
      show ?thesis
      proof (cases "allowFlip p")
        case False
        have eq: "findBottomLeft_loop p w h i acc = findBottomLeft_loop p w h (i + 1) acc1"
          unfolding acc1_def using i Inr False
          by (simp add: findBottomLeft_loop.simps[of p w h i acc] Let_def)
        from "1.IH"(2)[OF i Inr acc1_def False ok1] show ?thesis
          unfolding eq .
      next
        case True
        show ?thesis
        proof (cases "testFit p i h w")
          case (Inl e)
          with i testFit_spec[of p i h w] \<open>testFit p i w h = Inr r1\<close> True show ?thesis
            by (auto simp: findBottomLeft_loop.simps[of p w h i acc] Let_def)
        next
          case r2: (Inr r2)
          define acc2 where "acc2 = (case r2 of None \<Rightarrow> acc1
                           | Some y \<Rightarrow> findBottomLeft_update p i h w True y acc1)"
          have ok2: "skyline_foundOk p w h acc2"
            using ok1 r2 i
            by (cases r2) (auto simp: acc2_def intro: findBottomLeft_update_ok)
          have eq: "findBottomLeft_loop p w h i acc = findBottomLeft_loop p w h (i + 1) acc2"
            unfolding acc2_def acc1_def using i Inr True r2
            by (simp add: findBottomLeft_loop.simps[of p w h i acc] Let_def)
          from "1.IH"(1)[OF i Inr acc1_def True r2] ok2 show ?thesis
            unfolding eq acc2_def by simp
        qed
      qed
    qed
  qed
qed

lemma testFitWithWaste_cases:
  "(testFitWithWaste p i w h = Inl e \<longleftrightarrow> testFit p i w h = Inl e) \<and>
   (testFitWithWaste p i w h = Inr None \<longleftrightarrow> testFit p i w h = Inr None) \<and>
   (testFitWithWaste p i w h = Inr (Some yw) \<longrightarrow> testFit p i w h = Inr (Some (fst yw)))"
  by (auto simp: testFitWithWaste_def split: sum.splits option.splits)

lemma findMinWaste_loop_ok:
  "skyline_foundOk p w h acc \<Longrightarrow>
   (skyline_valid p \<longrightarrow> (\<exists>r. findMinWaste_loop p w h i acc = Inr r)) \<and>
   (\<forall>r. findMinWaste_loop p w h i acc = Inr r \<longrightarrow> skyline_foundOk p w h r)"
proof (induction p w h i acc rule: findMinWaste_loop.induct)
  case (1 p w h i acc)
  show ?case
  proof (cases "i < length (skyline p)")
    case False
    then have eq: "findMinWaste_loop p w h i acc = Inr acc"
      by (simp add: findMinWaste_loop.simps[of p w h i acc])
    show ?thesis
      unfolding eq using "1.prems" by blast
  next
    case i: True
    show ?thesis
    proof (cases "testFitWithWaste p i w h")
      case (Inl e)
      with i testFit_spec[of p i w h] testFitWithWaste_cases[of p i w h e] show ?thesis
        by (auto simp: findMinWaste_loop.simps[of p w h i acc])
    next
      case (Inr r1)
      define acc1 where "acc1 = (case r1 of None \<Rightarrow> acc
                          | Some yw \<Rightarrow> findMinWaste_update p i w h False yw acc)"
      have ok1: "skyline_foundOk p w h acc1"
      proof (cases r1)
        case None
        with "1.prems" show ?thesis by (simp add: acc1_def)
      next
        case (Some yw)
        with Inr testFitWithWaste_cases[of p i w h _ yw]
        have "testFit p i w h = Inr (Some (fst yw))" by simp
        from findMinWaste_update_ok[OF "1.prems" i this, of False "snd yw"] Some
        show ?thesis by (simp add: acc1_def)
      qed
      show ?thesis
      proof (cases "allowFlip p")
        case False
        have eq: "findMinWaste_loop p w h i acc = findMinWaste_loop p w h (i + 1) acc1"
          unfolding acc1_def using i Inr False
          by (simp add: findMinWaste_loop.simps[of p w h i acc] Let_def)
        from "1.IH"(2)[OF i Inr acc1_def False ok1] show ?thesis
          unfolding eq .
      next
        case True
        show ?thesis
        proof (cases "testFitWithWaste p i h w")
          case (Inl e)
          with i testFit_spec[of p i h w] testFitWithWaste_cases[of p i h w e]
            \<open>testFitWithWaste p i w h = Inr r1\<close> True show ?thesis
            by (auto simp: findMinWaste_loop.simps[of p w h i acc] Let_def)
        next
          case r2: (Inr r2)
          define acc2 where "acc2 = (case r2 of None \<Rightarrow> acc1
                           | Some yw \<Rightarrow> findMinWaste_update p i h w True yw acc1)"
          have ok2: "skyline_foundOk p w h acc2"
          proof (cases r2)
            case None
            with ok1 show ?thesis by (simp add: acc2_def)
          next
            case (Some yw)
            with r2 testFitWithWaste_cases[of p i h w _ yw]
            have "testFit p i h w = Inr (Some (fst yw))" by simp
            from findMinWaste_update_ok[OF ok1 i this, of True "snd yw"] Some
            show ?thesis by (simp add: acc2_def)
          qed
          have eq: "findMinWaste_loop p w h i acc = findMinWaste_loop p w h (i + 1) acc2"
            unfolding acc2_def acc1_def using i Inr True r2
            by (simp add: findMinWaste_loop.simps[of p w h i acc] Let_def)
          from "1.IH"(1)[OF i Inr acc1_def True r2] ok2 show ?thesis
            unfolding eq acc2_def by simp
        qed
      qed
    qed
  qed
qed

lemma skyline_foundOk_init [simp]: "skyline_foundOk p w h (zeroRect, a, b, c)"
  by (simp add: skyline_foundOk_def zeroRect_def)

lemma skyline_findNode_ok:
  "(skyline_valid p \<longrightarrow> (\<exists>r. skyline_findNode p w h = Inr r)) \<and>
   (\<forall>n s1 s2 idx. skyline_findNode p w h = Inr (n, s1, s2, idx) \<longrightarrow>
      Height n = 0 \<or> skyline_placed p w h n idx)"
proof (cases "levelSelect p = MinWaste")
  case True
  from findMinWaste_loop_ok[OF skyline_foundOk_init[of p w h MaxInt MaxInt "- 1"], of 0] True
  show ?thesis
    by (auto simp: skyline_findNode_def findMinWaste_def skyline_foundOk_def split: sum.splits)
next
  case False
  from findBottomLeft_loop_ok[OF skyline_foundOk_init[of p w h MaxInt MaxInt "- 1"], of 0] False
  show ?thesis
    by (auto simp: skyline_findNode_def findBottomLeft_def skyline_foundOk_def)
qed

definition skyline_goodBest :: "skylinePack \<Rightarrow> Size list \<Rightarrow> skylineBest \<Rightarrow> bool" where
  "skyline_goodBest p sizes best =
     (case best of (bestNode, bestScore1, bestScore2, bestBinIndex, bestSizeIndex) \<Rightarrow>
        bestSizeIndex = - 1 \<or>
        (0 \<le> bestSizeIndex \<and> nat bestSizeIndex < length sizes \<and> Height bestNode \<noteq> 0 \<and>
         skyline_placed p (Width (padSize (sizes ! nat bestSizeIndex) (padding p)))
           (Height (padSize (sizes ! nat bestSizeIndex) (padding p))) bestNode bestBinIndex))"

lemma skyline_scanSizes_ok:
  "skyline_goodBest p sizes best \<Longrightarrow> j \<le> length sizes \<Longrightarrow>
   (skyline_valid p \<longrightarrow> (\<exists>r. skyline_scanSizes p (int j) (drop j sizes) best = Inr r)) \<and>
   (\<forall>r. skyline_scanSizes p (int j) (drop j sizes) best = Inr r \<longrightarrow> skyline_goodBest p sizes r)"
proof (induction "length sizes - j" arbitrary: j best)
  case 0
  then show ?case by (cases best) auto
next
  case (Suc n)
  then have j: "j < length sizes" by simp
  then have dr: "drop j sizes = sizes ! j # drop (j + 1) sizes"
    by (simp add: Cons_nth_drop_Suc)
  obtain bn b1 b2 bb bs where best: "best = (bn, b1, b2, bb, bs)" by (cases best) auto
  define sz where "sz = padSize (sizes ! j) (padding p)"
  note fn = skyline_findNode_ok[of p "Width sz" "Height sz"]
  show ?case
  proof (cases "skyline_findNode p (Width sz) (Height sz)")
    case (Inl e)
    with fn show ?thesis
      unfolding dr best by (auto simp: Let_def sz_def)
  next
    case (Inr r)
    obtain nn s1 s2 idx where r: "r = (nn, s1, s2, idx)" by (cases r) auto
    define best1 where "best1 =
       (if Height nn \<noteq> 0 \<and> (s1 < b1 \<or> (s1 = b1 \<and> s2 < b2))
        then (nn, s1, s2, idx, int j) else (bn, b1, b2, bb, bs))"
    have g1: "skyline_goodBest p sizes best1"
      using fn Inr r Suc.prems(1) j
      by (auto simp: best1_def skyline_goodBest_def best sz_def)
    have eq: "skyline_scanSizes p (int j) (drop j sizes) best
        = skyline_scanSizes p (int (j + 1)) (drop (j + 1) sizes) best1"
      unfolding dr best best1_def using Inr r by (simp add: Let_def sz_def add.commute)
    from Suc.hyps(1)[of "j + 1" best1] Suc.hyps(2) j g1 show ?thesis
      unfolding eq by simp
  qed
qed

text \<open>One round of \<^verbatim>\<open>Insert\<close> after the choice: the node goes onto the skyline at the
  chosen index and into the packed list, with the padding taken off and the ID of the
  chosen size.\<close>

definition skyline_place :: "nat \<Rightarrow> Rect \<Rightarrow> int \<Rightarrow> skylinePack \<Rightarrow> skylinePack" where
  "skyline_place idx node ident p =
     (let p1 = addLevel idx node p;
          p2 = p1\<lparr>usedArea := usedArea p1 + Area node\<rparr>
      in p2\<lparr>packed := packed p2 @ [(unpadRect node (padding p2))\<lparr>ID := ident\<rparr>]\<rparr>)"

lemma skyline_Insert_rule:
  assumes init: "P sizes p"
    and step: "\<And>sizes p node idx k.
        P sizes p \<Longrightarrow> k < length sizes \<Longrightarrow> Height node \<noteq> 0 \<Longrightarrow>
        skyline_placed p (Width (padSize (sizes ! k) (padding p)))
          (Height (padSize (sizes ! k) (padding p))) node (int idx) \<Longrightarrow>
        P (slices_Delete sizes k (k + 1)) (skyline_place idx node (ID (sizes ! k)) p)"
  shows "((\<forall>sizes p. P sizes p \<longrightarrow> skyline_valid p) \<longrightarrow> (\<exists>r. skyline_Insert sizes p = Inr r)) \<and>
         (\<forall>p1 rest. skyline_Insert sizes p = Inr (p1, rest) \<longrightarrow> P rest p1)"
  using init
proof (induction sizes p rule: skyline_Insert.induct)
  case (1 sizes p)
  show ?case
  proof (cases "length sizes > 0")
    case False
    then have eq: "skyline_Insert sizes p = Inr (p, sizes)"
      by (subst skyline_Insert.simps) simp
    show ?thesis
      unfolding eq using "1.prems" by blast
  next
    case True
    have g0: "skyline_goodBest p sizes (zeroRect, MaxInt, MaxInt, - 1, - 1)"
      by (simp add: skyline_goodBest_def)
    note sc = skyline_scanSizes_ok[OF g0, of 0, simplified]
    show ?thesis
    proof (cases "skyline_scanSizes p 0 sizes (zeroRect, MaxInt, MaxInt, - 1, - 1)")
      case (Inl e)
      with sc "1.prems" True show ?thesis
        by (auto simp: skyline_Insert.simps[of sizes p])
    next
      case (Inr r)
      obtain node s1 s2 bb k where r: "r = (node, s1, s2, bb, k)" by (cases r) auto
      show ?thesis
      proof (cases "k = - 1")
        case True
        with \<open>length sizes > 0\<close> Inr r "1.prems" show ?thesis
          by (simp add: skyline_Insert.simps[of sizes p])
      next
        case False
        from sc Inr r False have ch: "0 \<le> k" "nat k < length sizes" "Height node \<noteq> 0"
          "skyline_placed p (Width (padSize (sizes ! nat k) (padding p)))
             (Height (padSize (sizes ! nat k) (padding p))) node bb"
          by (auto simp: skyline_goodBest_def)
        then have bb: "bb = int (nat bb)" by (simp add: skyline_placed_def)
        define p1 where "p1 = addLevel (nat bb) node p"
        define p2 where "p2 = p1\<lparr>usedArea := usedArea p1 + Area node\<rparr>"
        define node1 where "node1 = (unpadRect node (padding p2))\<lparr>ID := ID (sizes ! nat k)\<rparr>"
        define p3 where "p3 = p2\<lparr>packed := packed p2 @ [node1]\<rparr>"
        have p3: "p3 = skyline_place (nat bb) node (ID (sizes ! nat k)) p"
          by (simp add: p3_def node1_def p2_def p1_def skyline_place_def Let_def)
        have unfold: "skyline_Insert sizes p
            = skyline_Insert (slices_Delete sizes (nat k) (nat k + 1)) p3"
          using True Inr r False
          by (simp add: skyline_Insert.simps[of sizes p] Let_def p1_def p2_def node1_def p3_def)
        have "P (slices_Delete sizes (nat k) (nat k + 1)) p3"
          unfolding p3 using step[OF "1.prems" ch(2,3)] ch(4) bb by metis
        from "1.IH"[OF True Inr r[symmetric] refl refl refl False p1_def p2_def node1_def p3_def this]
        show ?thesis
          unfolding unfold .
      qed
    qed
  qed
qed

section \<open>Conservation: every size is packed or returned\<close>

lemma splitByHeuristic_packed [simp]: "packed (splitByHeuristic f u p) = packed p"
  by (simp add: splitByHeuristic_def splitAlongAxis_def Let_def)

lemma mergeFreeList_packed [simp]: "packed (mergeFreeList p) = packed p"
  by (simp add: mergeFreeList_def)

lemma guillotine_place_packed:
  "packed (guillotine_place pad i node p) = packed p @ [unpadRect node pad]"
  by (simp add: guillotine_place_def Let_def)

lemma guillotine_Insert_count:
  "guillotine_Insert pad sizes p = (p1, rest) \<Longrightarrow>
   length (packed p1) + length rest = length (packed p) + length sizes"
proof -
  assume a: "guillotine_Insert pad sizes p = (p1, rest)"
  have "length (packed (fst (guillotine_Insert_loop pad (0, 0, False) sizes p)))
        + length (snd (guillotine_Insert_loop pad (0, 0, False) sizes p))
      = length (packed p) + length sizes"
    by (rule guillotine_Insert_loop_rule[where P = "\<lambda>ss q.
          length (packed q) + length ss = length (packed p) + length sizes"])
       (auto simp: guillotine_place_packed slices_Delete_def)
  with a show ?thesis by (simp add: guillotine_Insert_def)
qed

lemma insertNewFreeRectangle_packed [simp]:
  "packed (insertNewFreeRectangle r p) = packed p"
  by (simp add: insertNewFreeRectangle_def split: prod.splits)

lemma insertNewFreeRectangle_padding [simp]:
  "padding (insertNewFreeRectangle r p) = padding p"
  by (simp add: insertNewFreeRectangle_def split: prod.splits)

lemma splitFreeNode_packed [simp]: "packed (snd (splitFreeNode f u p)) = packed p"
  by (simp add: splitFreeNode_def Let_def)

lemma splitFreeNode_padding [simp]: "padding (snd (splitFreeNode f u p)) = padding p"
  by (simp add: splitFreeNode_def Let_def)

lemma placeRect_loop_packed [simp]:
  "packed (placeRect_loop i node p) = packed p \<and> padding (placeRect_loop i node p) = padding p"
proof (induction i node p rule: placeRect_loop.induct)
  case (1 i node p)
  show ?case
  proof (cases "i < length (maxRects.freeRects p)")
    case False
    then show ?thesis by (subst (1 2) placeRect_loop.simps) simp
  next
    case True
    obtain b p1 where sp: "splitFreeNode (maxRects.freeRects p ! i) node p = (b, p1)"
      by (metis surj_pair)
    have p1: "packed p1 = packed p" "padding p1 = padding p"
      using splitFreeNode_packed[of "maxRects.freeRects p ! i" node p]
        splitFreeNode_padding[of "maxRects.freeRects p ! i" node p] sp by simp_all
    show ?thesis
    proof (cases b)
      case True
      with "1.IH"(1)[OF \<open>i < length (maxRects.freeRects p)\<close> sp[symmetric]] sp p1
        \<open>i < length (maxRects.freeRects p)\<close>
      show ?thesis by (subst (1 2) placeRect_loop.simps) simp
    next
      case False
      with "1.IH"(2)[OF \<open>i < length (maxRects.freeRects p)\<close> sp[symmetric]] sp p1
        \<open>i < length (maxRects.freeRects p)\<close>
      show ?thesis by (subst (1 2) placeRect_loop.simps) simp
    qed
  qed
qed

lemma pruneFreeList_packed [simp]:
  "packed (pruneFreeList p) = packed p" "padding (pruneFreeList p) = padding p"
  by (simp_all add: pruneFreeList_def Let_def)

lemma placeRect_packed [simp]:
  "packed (placeRect node p) = packed p" "padding (placeRect node p) = padding p"
  by (simp_all add: placeRect_def Let_def)

lemma maxRects_place_packed:
  "packed (maxRects_place node p) = packed p @ [unpadRect node (padding p)]"
  by (simp add: maxRects_place_def Let_def)

lemma maxRects_Insert_count:
  "maxRects_Insert sizes p = (p1, rest) \<Longrightarrow>
   length (packed p1) + length rest = length (packed p) + length sizes"
proof -
  assume a: "maxRects_Insert sizes p = (p1, rest)"
  have "length (packed (fst (maxRects_Insert sizes p))) + length (snd (maxRects_Insert sizes p))
      = length (packed p) + length sizes"
    by (rule maxRects_Insert_rule[where P = "\<lambda>ss q.
          length (packed q) + length ss = length (packed p) + length sizes"])
       (auto simp: maxRects_place_packed swapRemove_def)
  with a show ?thesis by simp
qed

lemma mergeSkylines_packed [simp]: "packed (mergeSkylines p) = packed p"
  by (simp add: mergeSkylines_def)

lemma addLevel_packed [simp]: "packed (addLevel idx node p) = packed p"
  by (simp add: addLevel_def addWaste_def Let_def split: option.splits)

lemma skyline_place_packed:
  "\<exists>r. packed (skyline_place idx node ident p) = packed p @ [r]"
  by (simp add: skyline_place_def Let_def)

lemma skyline_Insert_count:
  "skyline_Insert sizes p = Inr (p1, rest) \<Longrightarrow>
   length (packed p1) + length rest = length (packed p) + length sizes"
proof -
  assume a: "skyline_Insert sizes p = Inr (p1, rest)"
  have "\<forall>p1 rest. skyline_Insert sizes p = Inr (p1, rest) \<longrightarrow>
      length (packed p1) + length rest = length (packed p) + length sizes"
  proof (rule skyline_Insert_rule[where P = "\<lambda>ss q.
          length (packed q) + length ss = length (packed p) + length sizes", THEN conjunct2])
    show "length (packed p) + length sizes = length (packed p) + length sizes" ..
  next
    fix ss :: "Size list" and q :: skylinePack and node :: Rect and idx k :: nat
    assume "length (packed q) + length ss = length (packed p) + length sizes" "k < length ss"
    moreover obtain r where "packed (skyline_place idx node (ID (ss ! k)) q) = packed q @ [r]"
      using skyline_place_packed by blast
    ultimately show "length (packed (skyline_place idx node (ID (ss ! k)) q))
        + length (slices_Delete ss k (k + 1)) = length (packed p) + length sizes"
      by (simp add: slices_Delete_def)
  qed
  with a show ?thesis by blast
qed

lemma algo_Insert_count:
  "algo_Insert pad sizes a = Inr (a1, rest) \<Longrightarrow>
   length (algo_Rects a1) + length rest = length (algo_Rects a) + length sizes"
proof (cases a)
  case (MaxRectsAlgo m)
  assume "algo_Insert pad sizes a = Inr (a1, rest)"
  with MaxRectsAlgo obtain m1 where
    "maxRects_Insert sizes (algorithmBase_Padding pad m) = (m1, rest)" "a1 = MaxRectsAlgo m1"
    by (cases "maxRects_Insert sizes (algorithmBase_Padding pad m)") auto
  with maxRects_Insert_count[of sizes "algorithmBase_Padding pad m" m1 rest] MaxRectsAlgo
  show ?thesis by (simp add: algorithmBase_Padding_def)
next
  case (SkylineAlgo s)
  assume "algo_Insert pad sizes a = Inr (a1, rest)"
  with SkylineAlgo obtain s1 where
    "skyline_Insert sizes (algorithmBase_Padding pad s) = Inr (s1, rest)" "a1 = SkylineAlgo s1"
    by (cases "skyline_Insert sizes (algorithmBase_Padding pad s)") auto
  with skyline_Insert_count[of sizes "algorithmBase_Padding pad s" s1 rest] SkylineAlgo
  show ?thesis by (simp add: algorithmBase_Padding_def)
next
  case (GuillotineAlgo g)
  assume "algo_Insert pad sizes a = Inr (a1, rest)"
  with GuillotineAlgo obtain g1 where
    "guillotine_Insert pad sizes g = (g1, rest)" "a1 = GuillotineAlgo g1"
    by (cases "guillotine_Insert pad sizes g") auto
  with guillotine_Insert_count[of pad sizes g g1 rest] GuillotineAlgo
  show ?thesis by simp
qed

lemma algo_Reset_Rects: "algo_Reset w h a = Inr a1 \<Longrightarrow> algo_Rects a1 = []"
  by (cases a)
     (auto simp: maxRects_Reset_def skyline_Reset_def guillotine_Reset_def algorithmBase_Reset_def
       Let_def split: if_splits option.splits sum.splits)

lemma Pack_count:
  assumes "Pack p = Inr (p1, ok)"
  shows "length (Packer_Rects p1) + length (unpacked p1)
           = length (Packer_Rects p) + length (unpacked p) \<and> (ok \<longleftrightarrow> unpacked p1 = [])"
proof (cases "unpacked p = []")
  case True
  with assms show ?thesis by (auto simp: Pack_eq_spec Pack_spec_def)
next
  case False
  define staged where "staged =
     (case sortFunc p of
        Some f \<Rightarrow> slices_SortFunc (if sortRev p then (\<lambda>a b. f b a) else f) (unpacked p)
      | None \<Rightarrow> (if sortRev p then rev (unpacked p) else unpacked p))"
  have len: "length staged = length (unpacked p)"
    by (simp add: staged_def length_slices_SortFunc split: option.splits)
  from assms False obtain a rest where
    ins: "algo_Insert (Padding p) staged (algo p) = Inr (a, rest)"
    and p1: "p1 = p\<lparr>algo := a, unpacked := rest\<rparr>" and ok: "ok = (rest = [])"
    by (auto simp: Pack_eq_spec Pack_spec_def Let_def staged_def split: sum.splits)
  from algo_Insert_count[OF ins] len p1 ok show ?thesis
    by (simp add: Packer_Rects_def)
qed

lemma RepackAll_count:
  assumes "RepackAll p = Inr (p1, ok)"
  shows "length (Packer_Rects p1) + length (unpacked p1)
           = length (Packer_Rects p) + length (unpacked p) \<and>
         (ok \<longleftrightarrow> unpacked p1 = []) \<and>
         (ok \<longrightarrow> length (Packer_Rects p) \<le> length (Packer_Rects p1))"
proof -
  define q where "q = p\<lparr>unpacked := unpacked p @ map Rect_Size (algo_Rects (algo p))\<rparr>"
  from assms obtain a where
    rs: "algo_Reset (Width (Packer_Size q)) (Height (Packer_Size q)) (algo q) = Inr a"
    and pk: "Pack (q\<lparr>algo := a\<rparr>) = Inr (p1, ok)"
    by (auto simp: RepackAll_def Let_def q_def split: sum.splits)
  from Pack_count[OF pk] algo_Reset_Rects[OF rs] show ?thesis
    by (auto simp: Packer_Rects_def q_def)
qed

text \<open>A packer with one rectangle packed: \<^verbatim>\<open>NewPacker(4, 3, GuillotineBAF)\<close> after
  \<^verbatim>\<open>Insert\<close> of a 2 by 2 size and \<^verbatim>\<open>Pack\<close>.\<close>

definition onePacked :: Packer where
  "onePacked =
     (case Pack (stagedPacker\<lparr>unpacked := [NewSizeID 1 2 2]\<rparr>) of
        Inr (q, ok) \<Rightarrow> q | Inl e \<Rightarrow> stagedPacker)"

section \<open>MaxRects: no free rectangle contains another\<close>

subsection \<open>Pairwise properties of a list, up to the order of its elements\<close>

definition pairwiseM :: "('a \<Rightarrow> 'a \<Rightarrow> bool) \<Rightarrow> 'a multiset \<Rightarrow> bool" where
  "pairwiseM R M \<longleftrightarrow> (\<forall>x y. {#x, y#} \<subseteq># M \<longrightarrow> R x y)"

lemma pairwiseM_mono: "N \<subseteq># M \<Longrightarrow> pairwiseM R M \<Longrightarrow> pairwiseM R N"
  unfolding pairwiseM_def by (meson subset_mset.order_trans)

lemma pair_subset_add_mset:
  "{#x, y#} \<subseteq># add_mset a M \<longleftrightarrow>
     (x = a \<and> y \<in># M) \<or> (y = a \<and> x \<in># M) \<or> {#x, y#} \<subseteq># M"
proof (cases "x = a")
  case True
  have "{#a, y#} \<subseteq># add_mset a M \<longleftrightarrow> y \<in># M"
    by (simp add: single_subset_iff)
  moreover have "{#a, y#} \<subseteq># M \<Longrightarrow> y \<in># M"
    by (rule mset_subset_eqD[of "{#a, y#}"]) simp_all
  ultimately show ?thesis using True by auto
next
  case xa: False
  show ?thesis
  proof (cases "y = a")
    case True
    have "{#x, a#} = {#a, x#}" by (simp add: add_mset_commute)
    then have "{#x, a#} \<subseteq># add_mset a M \<longleftrightarrow> x \<in># M"
      by (simp add: single_subset_iff)
    moreover have "{#x, a#} \<subseteq># M \<Longrightarrow> x \<in># M"
      by (rule mset_subset_eqD[of "{#x, a#}"]) simp_all
    ultimately show ?thesis using True by auto
  next
    case False
    have "{#x, y#} \<subseteq># add_mset a M \<longleftrightarrow> {#x, y#} \<subseteq># M"
    proof
      assume sub: "{#x, y#} \<subseteq># add_mset a M"
      show "{#x, y#} \<subseteq># M"
        unfolding subseteq_mset_def
      proof
        fix z
        from sub have "count {#x, y#} z \<le> count (add_mset a M) z"
          by (simp only: subseteq_mset_def)
        with xa False show "count {#x, y#} z \<le> count M z"
          by (cases "z = a") auto
      qed
    next
      assume sub: "{#x, y#} \<subseteq># M"
      show "{#x, y#} \<subseteq># add_mset a M"
        unfolding subseteq_mset_def
      proof
        fix z
        from sub have "count {#x, y#} z \<le> count M z"
          by (simp only: subseteq_mset_def)
        then show "count {#x, y#} z \<le> count (add_mset a M) z"
          by simp
      qed
    qed
    with xa False show ?thesis by auto
  qed
qed

lemma pairwiseM_add:
  assumes "\<And>x y. R x y \<Longrightarrow> R y x"
  shows "pairwiseM R (add_mset a M) \<longleftrightarrow> (\<forall>y\<in>#M. R a y) \<and> pairwiseM R M"
  unfolding pairwiseM_def pair_subset_add_mset using assms by blast

lemma pairwiseM_empty [simp]: "pairwiseM R {#}"
  by (simp add: pairwiseM_def)

lemma pairwiseM_union:
  assumes "\<And>x y. R x y \<Longrightarrow> R y x"
  shows "pairwiseM R (A + B) \<longleftrightarrow>
     pairwiseM R A \<and> pairwiseM R B \<and> (\<forall>a\<in>#A. \<forall>b\<in>#B. R a b)"
  by (induction A) (auto simp: pairwiseM_add[OF assms])

lemma pairwiseM_sorted_wrt:
  assumes "\<And>x y. R x y \<Longrightarrow> R y x"
  shows "pairwiseM R (mset xs) \<longleftrightarrow> sorted_wrt R xs"
  by (induction xs) (auto simp: pairwiseM_add[OF assms])

lemma pairwiseM_nth:
  assumes "\<And>x y. R x y \<Longrightarrow> R y x"
  shows "pairwiseM R (mset xs) \<longleftrightarrow>
     (\<forall>i j. i < length xs \<and> j < length xs \<and> i \<noteq> j \<longrightarrow> R (xs ! i) (xs ! j))"
proof -
  have "sorted_wrt R xs \<longleftrightarrow>
     (\<forall>i j. i < length xs \<and> j < length xs \<and> i \<noteq> j \<longrightarrow> R (xs ! i) (xs ! j))"
  proof
    assume s: "sorted_wrt R xs"
    show "\<forall>i j. i < length xs \<and> j < length xs \<and> i \<noteq> j \<longrightarrow> R (xs ! i) (xs ! j)"
    proof (intro allI impI)
      fix i j assume "i < length xs \<and> j < length xs \<and> i \<noteq> j"
      then consider "i < j" "j < length xs" | "j < i" "i < length xs" by linarith
      then show "R (xs ! i) (xs ! j)"
        using s assms by cases (auto simp: sorted_wrt_iff_nth_less)
    qed
  next
    assume "\<forall>i j. i < length xs \<and> j < length xs \<and> i \<noteq> j \<longrightarrow> R (xs ! i) (xs ! j)"
    then show "sorted_wrt R xs" by (simp add: sorted_wrt_iff_nth_less)
  qed
  moreover have "pairwiseM R (mset xs) \<longleftrightarrow> sorted_wrt R xs"
    using assms by (rule pairwiseM_sorted_wrt)
  ultimately show ?thesis by simp
qed

lemma mset_swapRemove: "i < length xs \<Longrightarrow> mset (swapRemove xs i) = mset xs - {#xs ! i#}"
proof -
  assume i: "i < length xs"
  then have ne: "xs \<noteq> []" by auto
  define ys where "ys = xs[i := last xs]"
  have ys: "ys \<noteq> []" "last ys = last xs"
    using ne i by (cases "i = length xs - 1"; simp add: ys_def last_conv_nth)+
  have "mset ys = add_mset (last xs) (mset xs - {#xs ! i#})"
    using i by (simp add: ys_def mset_update)
  moreover have "mset (butlast ys) = mset ys - {#last ys#}"
  proof -
    have "mset ys = mset (butlast ys @ [last ys])" using ys(1) by simp
    then show ?thesis by (simp del: append_butlast_last_id)
  qed
  ultimately show ?thesis
    using ys(2) by (simp add: swapRemove_def ys_def)
qed

subsection \<open>The bookkeeping of \<^verbatim>\<open>insertNewFreeRectangle\<close>\<close>

text \<open>
  The new free rectangles are kept in two groups: those made from earlier free nodes
  (indices below \<^verbatim>\<open>newLastSize\<close>) and those made from the node being split. Removing the
  rectangle at \<open>i\<close> from the first group moves the last rectangle of that group to \<open>i\<close>
  and the last rectangle of the list into the gap: the first group loses the rectangle
  at \<open>i\<close>, the second keeps its elements.
\<close>

definition removeOlder :: "nat \<Rightarrow> nat \<Rightarrow> 'a list \<Rightarrow> 'a list" where
  "removeOlder i lastSize nfr =
     (let lastSize1 = lastSize - 1;
          nfr1 = nfr[i := nfr ! lastSize1];
          last1 = length nfr1 - 1;
          nfr2 = nfr1[lastSize1 := nfr1 ! last1]
      in take last1 nfr2)"

lemma removeOlder_length: "length (removeOlder i k N) = length N - 1"
  by (simp add: removeOlder_def Let_def)

lemma removeOlder_older:
  assumes "i < k" "k \<le> length N"
  shows "take (k - 1) (removeOlder i k N) = swapRemove (take k N) i"
proof -
  have "take (k - 1) (removeOlder i k N) = take (k - 1) (N[i := N ! (k - 1)])"
    using assms by (simp add: removeOlder_def Let_def min_def)
  moreover have "last (take k N) = N ! (k - 1)"
  proof -
    have "take k N \<noteq> []" using assms by auto
    from last_conv_nth[OF this] assms show ?thesis by (simp add: min_def)
  qed
  moreover have "butlast (take k (N[i := N ! (k - 1)])) = take (k - 1) (N[i := N ! (k - 1)])"
    using assms by (simp add: butlast_take)
  ultimately show ?thesis
    by (simp add: swapRemove_def take_update_swap)
qed

lemma removeOlder_newer:
  assumes "i < k" "k \<le> length N"
  shows "mset (drop (k - 1) (removeOlder i k N)) = mset (drop k N)"
proof (cases "k = length N")
  case True
  then show ?thesis by (simp add: removeOlder_def Let_def)
next
  case False
  with assms have k: "k < length N" by simp
  define v where "v = (N[i := N ! (k - 1)]) ! (length N - 1)"
  have v: "v = last (drop k N)"
    using assms k by (simp add: v_def last_drop last_conv_nth)
  have "drop (k - 1) ((N[i := N ! (k - 1)])[k - 1 := v]) = v # drop k N"
  proof -
    have "k - 1 < length ((N[i := N ! (k - 1)])[k - 1 := v])" using k by simp
    from Cons_nth_drop_Suc[OF this, symmetric] assms show ?thesis by simp
  qed
  then have "drop (k - 1) (removeOlder i k N) = take (length N - k) (v # drop k N)"
    using assms by (simp add: removeOlder_def Let_def drop_take v_def)
  also have "\<dots> = v # butlast (drop k N)"
  proof -
    have "length N - k = Suc (length (drop k N) - 1)" using k by simp
    then show ?thesis by (simp add: butlast_conv_take)
  qed
  finally have "mset (drop (k - 1) (removeOlder i k N)) = mset (butlast (drop k N) @ [last (drop k N)])"
    unfolding v by simp
  moreover have "drop k N \<noteq> []" using k by simp
  then have "butlast (drop k N) @ [last (drop k N)] = drop k N"
    by (rule append_butlast_last_id)
  ultimately show ?thesis by metis
qed

lemma removeOlder_before:
  assumes "i < k" "k \<le> length N" "j < i"
  shows "removeOlder i k N ! j = N ! j"
  using assms by (simp add: removeOlder_def Let_def)

lemma insertNewFreeRectangle_loop_unfold:
  "insertNewFreeRectangle_loop r i k N =
     (if i < k then
        (if ContainsRect (N ! i) r then (False, k, N)
         else if ContainsRect r (N ! i)
           then insertNewFreeRectangle_loop r i (k - 1) (removeOlder i k N)
         else insertNewFreeRectangle_loop r (i + 1) k N)
      else (True, k, N))"
  by (subst insertNewFreeRectangle_loop.simps) (simp add: removeOlder_def Let_def)

definition incomparable :: "Rect \<Rightarrow> Rect \<Rightarrow> bool" where
  "incomparable a b \<longleftrightarrow> \<not> ContainsRect a b \<and> \<not> ContainsRect b a"

lemma incomparable_sym: "incomparable a b \<Longrightarrow> incomparable b a"
  by (simp add: incomparable_def)

lemma ContainsRect_trans: "ContainsRect a b \<Longrightarrow> ContainsRect b c \<Longrightarrow> ContainsRect a c"
  by (simp add: ContainsRect_def)

lemma insertNewFreeRectangle_loop_spec:
  assumes "i \<le> k" "k \<le> length N" "\<forall>j<i. incomparable (N ! j) r"
    and "insertNewFreeRectangle_loop r i k N = (ok, k', N')"
  shows "k' \<le> length N' \<and> mset (take k' N') \<subseteq># mset (take k N) \<and>
         mset (drop k' N') = mset (drop k N) \<and>
         (ok \<longrightarrow> (\<forall>x\<in>set (take k' N'). incomparable x r))"
  using assms
proof (induction "k - i" arbitrary: i k N rule: less_induct)
  case less
  show ?case
  proof (cases "i < k")
    case False
    then have "insertNewFreeRectangle_loop r i k N = (True, k, N)"
      by (subst insertNewFreeRectangle_loop_unfold) simp
    with less.prems(4) have eq: "ok = True" "k' = k" "N' = N" by simp_all
    from False less.prems(1) have ik: "i = k" by simp
    have "\<forall>x\<in>set (take k N). incomparable x r"
    proof
      fix x assume "x \<in> set (take k N)"
      then obtain j where "j < length (take k N)" "x = take k N ! j"
        by (auto simp: in_set_conv_nth)
      with less.prems(3) ik show "incomparable x r" by simp
    qed
    with eq less.prems(2) show ?thesis by simp
  next
    case True
    note ik = True
    show ?thesis
    proof (cases "ContainsRect (N ! i) r")
      case True
      with ik have "insertNewFreeRectangle_loop r i k N = (False, k, N)"
        by (subst insertNewFreeRectangle_loop_unfold) simp
      with less.prems(4) have "ok = False" "k' = k" "N' = N" by simp_all
      with less.prems(2) show ?thesis by simp
    next
      case False
      note c1 = False
      show ?thesis
      proof (cases "ContainsRect r (N ! i)")
        case True
        with ik c1
        have "insertNewFreeRectangle_loop r i k N =
                insertNewFreeRectangle_loop r i (k - 1) (removeOlder i k N)"
          by (subst insertNewFreeRectangle_loop_unfold) simp
        with less.prems(4)
        have rec: "insertNewFreeRectangle_loop r i (k - 1) (removeOlder i k N) = (ok, k', N')"
          by simp
        have a: "k - 1 - i < k - i" "i \<le> k - 1" "k - 1 \<le> length (removeOlder i k N)"
          using ik less.prems(2) by (simp_all add: removeOlder_length)
        have b: "\<forall>j<i. incomparable (removeOlder i k N ! j) r"
          using less.prems(3) ik less.prems(2) by (simp add: removeOlder_before)
        from less.hyps[OF a(1) a(2) a(3) b rec]
        have ih: "k' \<le> length N'"
          "mset (take k' N') \<subseteq># mset (take (k - 1) (removeOlder i k N))"
          "mset (drop k' N') = mset (drop (k - 1) (removeOlder i k N))"
          "ok \<longrightarrow> (\<forall>x\<in>set (take k' N'). incomparable x r)" by simp_all
        have "i < length (take k N)" using ik less.prems(2) by simp
        then have "mset (swapRemove (take k N) i) = mset (take k N) - {#take k N ! i#}"
          by (rule mset_swapRemove)
        then have "mset (take (k - 1) (removeOlder i k N)) = mset (take k N) - {#take k N ! i#}"
          using removeOlder_older[OF ik less.prems(2)] by simp
        then have "mset (take (k - 1) (removeOlder i k N)) \<subseteq># mset (take k N)"
          by simp
        with ih(2) have "mset (take k' N') \<subseteq># mset (take k N)"
          by (rule subset_mset.order_trans)
        with ih removeOlder_newer[OF ik less.prems(2)] show ?thesis by simp
      next
        case False
        with ik c1
        have "insertNewFreeRectangle_loop r i k N = insertNewFreeRectangle_loop r (i + 1) k N"
          by (subst insertNewFreeRectangle_loop_unfold) simp
        with less.prems(4)
        have rec: "insertNewFreeRectangle_loop r (i + 1) k N = (ok, k', N')"
          by simp
        have a: "k - (i + 1) < k - i" "i + 1 \<le> k" using ik by simp_all
        have b: "\<forall>j<i + 1. incomparable (N ! j) r"
        proof (intro allI impI)
          fix j assume "j < i + 1"
          then consider "j < i" | "j = i" by linarith
          then show "incomparable (N ! j) r"
            using less.prems(3) c1 False by cases (simp_all add: incomparable_def)
        qed
        from less.hyps[OF a(1) a(2) less.prems(2) b rec] show ?thesis .
      qed
    qed
  qed
qed

text \<open>
  What \<^verbatim>\<open>insertNewFreeRectangle\<close> keeps: when the new rectangle is incomparable with
  the ones of its own group, the list stays free of containments, and nothing but the new
  rectangle enters either group.
\<close>

lemma insertNewFreeRectangle_spec:
  assumes len: "newLastSize p \<le> length (newFreeRects p)"
    and pw: "pairwiseM incomparable (mset (newFreeRects p))"
    and own: "\<forall>x\<in>set (drop (newLastSize p) (newFreeRects p)). incomparable x r"
  shows "newLastSize (insertNewFreeRectangle r p) \<le> length (newFreeRects (insertNewFreeRectangle r p))"
    and "pairwiseM incomparable (mset (newFreeRects (insertNewFreeRectangle r p)))"
    and "set (drop (newLastSize (insertNewFreeRectangle r p)) (newFreeRects (insertNewFreeRectangle r p)))
           \<subseteq> insert r (set (drop (newLastSize p) (newFreeRects p)))"
    and "set (newFreeRects (insertNewFreeRectangle r p)) \<subseteq> insert r (set (newFreeRects p))"
proof -
  obtain ok k' N' where loop:
    "insertNewFreeRectangle_loop r 0 (newLastSize p) (newFreeRects p) = (ok, k', N')"
    by (metis prod_cases3)
  from insertNewFreeRectangle_loop_spec[OF _ len _ loop]
  have s: "k' \<le> length N'" "mset (take k' N') \<subseteq># mset (take (newLastSize p) (newFreeRects p))"
    "mset (drop k' N') = mset (drop (newLastSize p) (newFreeRects p))"
    "ok \<longrightarrow> (\<forall>x\<in>set (take k' N'). incomparable x r)" by simp_all
  have q: "newLastSize (insertNewFreeRectangle r p) = k'"
    "newFreeRects (insertNewFreeRectangle r p) = (if ok then N' @ [r] else N')"
    using loop by (simp_all add: insertNewFreeRectangle_def)
  have "mset (take k' N') + mset (drop k' N')
          \<subseteq># mset (take (newLastSize p) (newFreeRects p)) + mset (drop (newLastSize p) (newFreeRects p))"
    using s(2,3) by (simp add: subset_mset.add_mono)
  moreover have "mset (take k' N') + mset (drop k' N') = mset N'"
    by (metis append_take_drop_id mset_append)
  moreover have "mset (take (newLastSize p) (newFreeRects p)) + mset (drop (newLastSize p) (newFreeRects p))
      = mset (newFreeRects p)"
    by (metis append_take_drop_id mset_append)
  ultimately have sub: "mset N' \<subseteq># mset (newFreeRects p)"
    by simp
  then have pwN: "pairwiseM incomparable (mset N')" using pw by (rule pairwiseM_mono)
  have setN: "set N' \<subseteq> set (newFreeRects p)" using sub by (metis set_mset_mono set_mset_mset)
  have dropN: "set (drop k' N') = set (drop (newLastSize p) (newFreeRects p))"
    using s(3) by (metis set_mset_mset)
  show "newLastSize (insertNewFreeRectangle r p) \<le> length (newFreeRects (insertNewFreeRectangle r p))"
    using s(1) by (simp add: q)
  show "pairwiseM incomparable (mset (newFreeRects (insertNewFreeRectangle r p)))"
  proof (cases ok)
    case False
    with pwN show ?thesis by (simp add: q)
  next
    case True
    have "\<forall>x\<in>set N'. incomparable r x"
    proof
      fix x assume "x \<in> set N'"
      then have "x \<in> set (take k' N' @ drop k' N')" by simp
      then have "x \<in> set (take k' N') \<or> x \<in> set (drop k' N')" by (simp only: set_append Un_iff)
      then show "incomparable r x"
        using s(4) True own dropN by (auto intro: incomparable_sym)
    qed
    with pwN True show ?thesis
      by (simp add: q pairwiseM_add[of incomparable, OF incomparable_sym])
  qed
  show "set (drop (newLastSize (insertNewFreeRectangle r p)) (newFreeRects (insertNewFreeRectangle r p)))
           \<subseteq> insert r (set (drop (newLastSize p) (newFreeRects p)))"
    using s(1) dropN by (auto simp: q)
  show "set (newFreeRects (insertNewFreeRectangle r p)) \<subseteq> insert r (set (newFreeRects p))"
    using setN by (auto simp: q)
qed

subsection \<open>The pieces that \<^verbatim>\<open>splitFreeNode\<close> cuts off\<close>

text \<open>
  The rectangles that \<^verbatim>\<open>splitFreeNode\<close> hands to \<^verbatim>\<open>insertNewFreeRectangle\<close>, in the order
  of the calls: the part of the free node above the used node, the part below it, the part
  to its left and the part to its right.
\<close>

definition splitPieces :: "Rect \<Rightarrow> Rect \<Rightarrow> Rect list" where
  "splitPieces freeNode usedNode =
     (if Y usedNode > Y freeNode \<and> Y usedNode < Y freeNode + Height freeNode
      then [freeNode\<lparr>Height := Y usedNode - Y freeNode\<rparr>] else []) @
     (if Y usedNode + Height usedNode < Y freeNode + Height freeNode
      then [freeNode\<lparr>Y := Y usedNode + Height usedNode,
                     Height := Y freeNode + Height freeNode - (Y usedNode + Height usedNode)\<rparr>]
      else []) @
     (if X usedNode > X freeNode \<and> X usedNode < X freeNode + Width freeNode
      then [freeNode\<lparr>Width := X usedNode - X freeNode\<rparr>] else []) @
     (if X usedNode + Width usedNode < X freeNode + Width freeNode
      then [freeNode\<lparr>X := X usedNode + Width usedNode,
                     Width := X freeNode + Width freeNode - (X usedNode + Width usedNode)\<rparr>]
      else [])"

definition splitMisses :: "Rect \<Rightarrow> Rect \<Rightarrow> bool" where
  "splitMisses freeNode usedNode \<longleftrightarrow>
     X usedNode \<ge> X freeNode + Width freeNode \<or> X usedNode + Width usedNode \<le> X freeNode \<or>
     Y usedNode \<ge> Y freeNode + Height freeNode \<or> Y usedNode + Height usedNode \<le> Y freeNode"

lemma splitFreeNode_unfold:
  "splitFreeNode f u p =
     (if splitMisses f u then (False, p)
      else (True, fold insertNewFreeRectangle (splitPieces f u)
                    (p\<lparr>newLastSize := length (newFreeRects p)\<rparr>)))"
  by (simp add: splitFreeNode_def splitMisses_def splitPieces_def Let_def not_le)

lemma splitPieces_incomparable:
  "\<not> splitMisses f u \<Longrightarrow> sorted_wrt incomparable (splitPieces f u)"
  by (simp add: splitMisses_def splitPieces_def incomparable_def ContainsRect_def not_le)

lemma splitPieces_contained:
  "\<not> splitMisses f u \<Longrightarrow> x \<in> set (splitPieces f u) \<Longrightarrow> ContainsRect f x"
  by (auto simp: splitMisses_def splitPieces_def ContainsRect_def not_le split: if_splits)

lemma fold_insertNewFreeRectangle_spec:
  assumes "newLastSize q \<le> length (newFreeRects q)"
    and "pairwiseM incomparable (mset (newFreeRects q))"
    and "set (drop (newLastSize q) (newFreeRects q)) \<subseteq> G"
    and "\<forall>x\<in>G. \<forall>y\<in>set ps. incomparable x y"
    and "sorted_wrt incomparable ps"
  shows "pairwiseM incomparable (mset (newFreeRects (fold insertNewFreeRectangle ps q))) \<and>
         set (newFreeRects (fold insertNewFreeRectangle ps q)) \<subseteq> set (newFreeRects q) \<union> set ps"
  using assms
proof (induction ps arbitrary: q G)
  case Nil
  then show ?case by simp
next
  case (Cons r ps)
  have own: "\<forall>x\<in>set (drop (newLastSize q) (newFreeRects q)). incomparable x r"
    using Cons.prems(3,4) by auto
  note s = insertNewFreeRectangle_spec[OF Cons.prems(1,2) own]
  have g: "set (drop (newLastSize (insertNewFreeRectangle r q))
                  (newFreeRects (insertNewFreeRectangle r q))) \<subseteq> insert r G"
    using s(3) Cons.prems(3) by auto
  have i: "\<forall>x\<in>insert r G. \<forall>y\<in>set ps. incomparable x y"
    using Cons.prems(4,5) by auto
  have "sorted_wrt incomparable ps" using Cons.prems(5) by simp
  from Cons.IH[OF s(1) s(2) g i this] s(4) show ?case by auto
qed

lemma splitFreeNode_spec:
  assumes pw: "pairwiseM incomparable (mset (newFreeRects p))"
  shows "pairwiseM incomparable (mset (newFreeRects (snd (splitFreeNode f u p))))"
    and "fst (splitFreeNode f u p) \<Longrightarrow>
           set (newFreeRects (snd (splitFreeNode f u p))) \<subseteq> set (newFreeRects p) \<union> set (splitPieces f u)"
    and "fst (splitFreeNode f u p) \<longleftrightarrow> \<not> splitMisses f u"
    and "\<not> fst (splitFreeNode f u p) \<Longrightarrow> snd (splitFreeNode f u p) = p"
proof -
  let ?p0 = "p\<lparr>newLastSize := length (newFreeRects p)\<rparr>"
  have r: "pairwiseM incomparable (mset (newFreeRects (fold insertNewFreeRectangle (splitPieces f u) ?p0))) \<and>
         set (newFreeRects (fold insertNewFreeRectangle (splitPieces f u) ?p0))
           \<subseteq> set (newFreeRects ?p0) \<union> set (splitPieces f u)"
    if "\<not> splitMisses f u"
    by (rule fold_insertNewFreeRectangle_spec[where G = "{}"])
       (use pw splitPieces_incomparable[OF that] in simp_all)
  show "pairwiseM incomparable (mset (newFreeRects (snd (splitFreeNode f u p))))"
    using r pw by (simp add: splitFreeNode_unfold)
  show "fst (splitFreeNode f u p) \<Longrightarrow>
           set (newFreeRects (snd (splitFreeNode f u p))) \<subseteq> set (newFreeRects p) \<union> set (splitPieces f u)"
    using r by (simp add: splitFreeNode_unfold split: if_splits)
  show "fst (splitFreeNode f u p) \<longleftrightarrow> \<not> splitMisses f u"
    by (simp add: splitFreeNode_unfold)
  show "\<not> fst (splitFreeNode f u p) \<Longrightarrow> snd (splitFreeNode f u p) = p"
    by (simp add: splitFreeNode_unfold split: if_splits)
qed

subsection \<open>The loops of \<^verbatim>\<open>placeRect\<close> and \<^verbatim>\<open>pruneFreeList\<close>\<close>

text \<open>
  An invariant of the loop of \<^verbatim>\<open>placeRect\<close>: it is kept when the free node at \<open>i\<close> misses
  the used node and the index moves on, and when the free node is split and removed.
\<close>

lemma placeRect_loop_rule:
  assumes init: "Q i p" and bound: "i \<le> length (maxRects.freeRects p)"
    and miss: "\<And>i p. Q i p \<Longrightarrow> i < length (maxRects.freeRects p) \<Longrightarrow>
        splitMisses (maxRects.freeRects p ! i) node \<Longrightarrow> Q (i + 1) p"
    and hit: "\<And>i p. Q i p \<Longrightarrow> i < length (maxRects.freeRects p) \<Longrightarrow>
        \<not> splitMisses (maxRects.freeRects p ! i) node \<Longrightarrow>
        Q i ((snd (splitFreeNode (maxRects.freeRects p ! i) node p))
               \<lparr>maxRects.freeRects := swapRemove (maxRects.freeRects p) i\<rparr>)"
  shows "Q (length (maxRects.freeRects (placeRect_loop i node p))) (placeRect_loop i node p)"
  using init bound miss hit
proof (induction i node p rule: placeRect_loop.induct)
  case (1 i node p)
  show ?case
  proof (cases "i < length (maxRects.freeRects p)")
    case False
    with "1.prems" have "i = length (maxRects.freeRects p)" by simp
    moreover from False have "placeRect_loop i node p = p"
      by (subst placeRect_loop.simps) simp
    ultimately show ?thesis using "1.prems"(1) by simp
  next
    case True
    let ?f = "maxRects.freeRects p ! i"
    obtain b p1 where sp: "splitFreeNode ?f node p = (b, p1)"
      by (metis surj_pair)
    have b: "b \<longleftrightarrow> \<not> splitMisses ?f node" and p1: "p1 = snd (splitFreeNode ?f node p)"
      using sp by (simp_all add: splitFreeNode_unfold split: if_splits)
    have fr: "maxRects.freeRects p1 = maxRects.freeRects p"
      by (simp add: p1)
    show ?thesis
    proof (cases b)
      case True
      let ?q = "p1\<lparr>maxRects.freeRects := swapRemove (maxRects.freeRects p1) i\<rparr>"
      have eq: "placeRect_loop i node p = placeRect_loop i node ?q"
        using sp True \<open>i < length (maxRects.freeRects p)\<close>
        by (subst placeRect_loop.simps) simp
      have "Q i ?q"
        using "1.prems"(4)[OF "1.prems"(1) \<open>i < length (maxRects.freeRects p)\<close>] True b
        by (simp add: p1)
      moreover have "i \<le> length (maxRects.freeRects ?q)"
        using \<open>i < length (maxRects.freeRects p)\<close> by (simp add: fr swapRemove_def)
      ultimately show ?thesis
        unfolding eq
        using "1.IH"(1)[OF \<open>i < length (maxRects.freeRects p)\<close> sp[symmetric] _ _ _ "1.prems"(3,4)]
          True
        by simp
    next
      case False
      then have same: "p1 = p"
        using b p1 by (simp add: splitFreeNode_unfold)
      have eq: "placeRect_loop i node p = placeRect_loop (i + 1) node p1"
        using sp False \<open>i < length (maxRects.freeRects p)\<close>
        by (subst placeRect_loop.simps) simp
      have "Q (i + 1) p1"
        using "1.prems"(3)[OF "1.prems"(1) \<open>i < length (maxRects.freeRects p)\<close>] False b same
        by simp
      moreover have "i + 1 \<le> length (maxRects.freeRects p1)"
        using \<open>i < length (maxRects.freeRects p)\<close> by (simp add: fr)
      ultimately show ?thesis
        unfolding eq
        using "1.IH"(2)[OF \<open>i < length (maxRects.freeRects p)\<close> sp[symmetric] _ _ _ "1.prems"(3,4)]
          False
        by simp
    qed
  qed
qed

lemma nth_swapRemove_before: "k < j \<Longrightarrow> j < length xs \<Longrightarrow> swapRemove xs j ! k = xs ! k"
  by (simp add: swapRemove_def nth_butlast)

lemma pruneFreeList_inner_spec:
  assumes "\<forall>k<j. \<not> ContainsRect f (N ! k)"
  shows "mset (pruneFreeList_inner f j N) \<subseteq># mset N \<and>
         (\<forall>x\<in>set (pruneFreeList_inner f j N). \<not> ContainsRect f x)"
  using assms
proof (induction "length N - j" arbitrary: j N rule: less_induct)
  case less
  show ?case
  proof (cases "j < length N")
    case False
    then have eq: "pruneFreeList_inner f j N = N"
      by (subst pruneFreeList_inner.simps) simp
    have "\<forall>x\<in>set N. \<not> ContainsRect f x"
    proof
      fix x assume "x \<in> set N"
      then obtain k where "k < length N" "x = N ! k" by (auto simp: in_set_conv_nth)
      with less.prems False show "\<not> ContainsRect f x" by simp
    qed
    then show ?thesis by (simp add: eq)
  next
    case True
    note j = True
    show ?thesis
    proof (cases "ContainsRect f (N ! j)")
      case True
      then have eq: "pruneFreeList_inner f j N = pruneFreeList_inner f j (swapRemove N j)"
        using j by (subst pruneFreeList_inner.simps) simp
      have m: "mset (swapRemove N j) = mset N - {#N ! j#}" using j by (rule mset_swapRemove)
      have a: "length (swapRemove N j) - j < length N - j"
        using j by (simp add: swapRemove_def)
      have b: "\<forall>k<j. \<not> ContainsRect f (swapRemove N j ! k)"
        using less.prems j by (simp add: nth_swapRemove_before)
      from less.hyps[OF a b]
      have r: "\<forall>x\<in>set (pruneFreeList_inner f j (swapRemove N j)). \<not> ContainsRect f x"
        and "mset (pruneFreeList_inner f j (swapRemove N j)) \<subseteq># mset (swapRemove N j)"
        by simp_all
      from this(2) have "mset (pruneFreeList_inner f j (swapRemove N j)) \<subseteq># mset (swapRemove N j)" .
      moreover have "mset (swapRemove N j) \<subseteq># mset N" by (simp add: m)
      ultimately have "mset (pruneFreeList_inner f j (swapRemove N j)) \<subseteq># mset N"
        by (rule subset_mset.order_trans)
      with r show ?thesis by (simp add: eq)
    next
      case False
      then have eq: "pruneFreeList_inner f j N = pruneFreeList_inner f (j + 1) N"
        using j by (subst pruneFreeList_inner.simps) simp
      have a: "length N - (j + 1) < length N - j" using j by simp
      have b: "\<forall>k<j + 1. \<not> ContainsRect f (N ! k)"
      proof (intro allI impI)
        fix k assume "k < j + 1"
        then consider "k < j" | "k = j" by linarith
        then show "\<not> ContainsRect f (N ! k)" using less.prems False by cases simp_all
      qed
      from less.hyps[OF a b] show ?thesis by (simp add: eq)
    qed
  qed
qed

lemma pruneFreeList_fold_spec:
  "mset (fold (\<lambda>freeRect nfr. pruneFreeList_inner freeRect 0 nfr) F N) \<subseteq># mset N \<and>
   (\<forall>f\<in>set F. \<forall>x\<in>set (fold (\<lambda>freeRect nfr. pruneFreeList_inner freeRect 0 nfr) F N).
      \<not> ContainsRect f x)"
proof (induction F arbitrary: N)
  case Nil
  show ?case by simp
next
  case (Cons f F)
  let ?N1 = "pruneFreeList_inner f 0 N"
  let ?R = "fold (\<lambda>freeRect nfr. pruneFreeList_inner freeRect 0 nfr) F ?N1"
  have one: "mset ?N1 \<subseteq># mset N" "\<forall>x\<in>set ?N1. \<not> ContainsRect f x"
    using pruneFreeList_inner_spec[of 0 f N] by simp_all
  have rest: "mset ?R \<subseteq># mset ?N1" "\<forall>g\<in>set F. \<forall>x\<in>set ?R. \<not> ContainsRect g x"
    using Cons.IH[of ?N1] by simp_all
  have "mset ?R \<subseteq># mset N" using rest(1) one(1) by (rule subset_mset.order_trans)
  moreover have "set ?R \<subseteq> set ?N1" using rest(1) by (metis set_mset_mono set_mset_mset)
  ultimately show ?case using one(2) rest(2) by auto
qed

subsection \<open>A placement keeps the free list free of containments\<close>

definition noContainment :: "Rect list \<Rightarrow> bool" where
  "noContainment rs \<longleftrightarrow>
     (\<forall>i < length rs. \<forall>j < length rs. i \<noteq> j \<longrightarrow> \<not> ContainsRect (rs ! i) (rs ! j))"

lemma noContainment_pairwiseM: "noContainment rs \<longleftrightarrow> pairwiseM incomparable (mset rs)"
proof -
  have "pairwiseM incomparable (mset rs) \<longleftrightarrow>
     (\<forall>i j. i < length rs \<and> j < length rs \<and> i \<noteq> j \<longrightarrow> incomparable (rs ! i) (rs ! j))"
    by (rule pairwiseM_nth[OF incomparable_sym])
  then show ?thesis
    unfolding noContainment_def incomparable_def by blast
qed

definition splitInv :: "Rect list \<Rightarrow> maxRects \<Rightarrow> bool" where
  "splitInv F0 p \<longleftrightarrow>
     (\<exists>Rm. mset F0 = mset (maxRects.freeRects p) + Rm \<and>
           pairwiseM incomparable (mset (newFreeRects p)) \<and>
           (\<forall>x\<in>set (newFreeRects p). \<exists>f\<in>#Rm. ContainsRect f x))"

lemma splitInv_hit:
  assumes inv: "splitInv F0 p" and i: "i < length (maxRects.freeRects p)"
    and hit: "\<not> splitMisses (maxRects.freeRects p ! i) node"
  shows "splitInv F0 ((snd (splitFreeNode (maxRects.freeRects p ! i) node p))
               \<lparr>maxRects.freeRects := swapRemove (maxRects.freeRects p) i\<rparr>)"
proof -
  let ?f = "maxRects.freeRects p ! i"
  let ?q = "snd (splitFreeNode ?f node p)"
  from inv obtain Rm where Rm: "mset F0 = mset (maxRects.freeRects p) + Rm"
    "pairwiseM incomparable (mset (newFreeRects p))"
    "\<forall>x\<in>set (newFreeRects p). \<exists>f\<in>#Rm. ContainsRect f x"
    unfolding splitInv_def by blast
  note s = splitFreeNode_spec[OF Rm(2), of ?f node]
  have fst: "fst (splitFreeNode ?f node p)" using s(3) hit by simp
  have "?f \<in># mset (maxRects.freeRects p)" using i by simp
  then have "mset (maxRects.freeRects p) = add_mset ?f (mset (maxRects.freeRects p) - {#?f#})"
    by simp
  then have m: "mset F0 = mset (swapRemove (maxRects.freeRects p) i) + add_mset ?f Rm"
    using Rm(1) mset_swapRemove[OF i] by simp
  have c: "\<forall>x\<in>set (newFreeRects ?q). \<exists>f\<in>#add_mset ?f Rm. ContainsRect f x"
  proof
    fix x assume "x \<in> set (newFreeRects ?q)"
    with s(2)[OF fst] have "x \<in> set (newFreeRects p) \<or> x \<in> set (splitPieces ?f node)" by auto
    then show "\<exists>f\<in>#add_mset ?f Rm. ContainsRect f x"
      using Rm(3) splitPieces_contained[OF hit] by auto
  qed
  show ?thesis
    unfolding splitInv_def
    by (rule exI[of _ "add_mset ?f Rm"]) (use m s(1) c in simp)
qed

lemma placeRect_loop_splitInv:
  assumes "newFreeRects p = []"
  shows "splitInv (maxRects.freeRects p)
           (placeRect_loop 0 node p)"
proof -
  have init: "splitInv (maxRects.freeRects p) p"
    unfolding splitInv_def by (rule exI[of _ "{#}"]) (simp add: assms)
  show ?thesis
    by (rule placeRect_loop_rule[where Q = "\<lambda>i. splitInv (maxRects.freeRects p)" and i = 0 and p = p])
       (use init splitInv_hit in simp_all)
qed

lemma placeRect_noContainment:
  assumes nf: "newFreeRects p = []" and nc: "noContainment (maxRects.freeRects p)"
  shows "newFreeRects (placeRect node p) = [] \<and> noContainment (maxRects.freeRects (placeRect node p))"
proof -
  let ?p1 = "placeRect_loop 0 node p"
  let ?R = "fold (\<lambda>freeRect nfr. pruneFreeList_inner freeRect 0 nfr)
              (maxRects.freeRects ?p1) (newFreeRects ?p1)"
  from placeRect_loop_splitInv[OF nf, of node]
  obtain Rm where Rm: "mset (maxRects.freeRects p) = mset (maxRects.freeRects ?p1) + Rm"
    "pairwiseM incomparable (mset (newFreeRects ?p1))"
    "\<forall>x\<in>set (newFreeRects ?p1). \<exists>f\<in>#Rm. ContainsRect f x"
    unfolding splitInv_def by blast
  have pr: "mset ?R \<subseteq># mset (newFreeRects ?p1)"
    "\<forall>f\<in>set (maxRects.freeRects ?p1). \<forall>x\<in>set ?R. \<not> ContainsRect f x"
    using pruneFreeList_fold_spec[of "maxRects.freeRects ?p1" "newFreeRects ?p1"] by simp_all
  have old: "pairwiseM incomparable (mset (maxRects.freeRects p))"
    using nc by (simp add: noContainment_pairwiseM)
  have a: "pairwiseM incomparable (mset (maxRects.freeRects ?p1))"
    by (rule pairwiseM_mono[OF _ old]) (simp add: Rm(1))
  have b: "pairwiseM incomparable (mset ?R)"
    by (rule pairwiseM_mono[OF pr(1) Rm(2)])
  have c: "\<forall>a\<in>#mset (maxRects.freeRects ?p1). \<forall>b\<in>#mset ?R. incomparable a b"
  proof (intro ballI)
    fix a b assume a: "a \<in># mset (maxRects.freeRects ?p1)" and b: "b \<in># mset ?R"
    from b pr(1) have "b \<in> set (newFreeRects ?p1)"
      by (metis mset_subset_eqD set_mset_mset)
    with Rm(3) obtain f where f: "f \<in># Rm" "ContainsRect f b" by blast
    have "{#a#} + {#f#} \<subseteq># mset (maxRects.freeRects ?p1) + Rm"
      by (rule subset_mset.add_mono) (use a f(1) in simp_all)
    then have "{#a, f#} \<subseteq># mset (maxRects.freeRects ?p1) + Rm"
      by (simp add: add_mset_commute)
    then have "incomparable a f" using old unfolding Rm(1)[symmetric] pairwiseM_def by blast
    then have "\<not> ContainsRect b a"
      using f(2) ContainsRect_trans[of f b a] by (auto simp: incomparable_def)
    moreover have "\<not> ContainsRect a b" using pr(2) a b by simp
    ultimately show "incomparable a b" by (simp add: incomparable_def)
  qed
  have "pairwiseM incomparable (mset (maxRects.freeRects ?p1) + mset ?R)"
    using a b c by (simp add: pairwiseM_union[of incomparable, OF incomparable_sym])
  then show ?thesis
    by (simp add: placeRect_def pruneFreeList_def Let_def noContainment_pairwiseM)
qed

subsection \<open>The states of a MaxRects engine\<close>

text \<open>
  The states that a MaxRects engine takes from \<^verbatim>\<open>Reset\<close> on: after \<^verbatim>\<open>Reset\<close> (which also
  ends \<^verbatim>\<open>newMaxRects\<close>), after the two setters, after each round of the loop of
  \<^verbatim>\<open>Insert\<close> (the sizes are scanned, a node is chosen and placed), and after a whole call
  of \<^verbatim>\<open>Insert\<close>.
\<close>

inductive maxRects_reachable :: "maxRects \<Rightarrow> bool" where
  reset: "maxRects_Reset w h p0 = Inr p \<Longrightarrow> maxRects_reachable p"
| allowFlip: "maxRects_reachable p \<Longrightarrow> maxRects_reachable (algorithmBase_AllowFlip enabled p)"
| padding: "maxRects_reachable p \<Longrightarrow> maxRects_reachable (algorithmBase_Padding pad p)"
| placed: "maxRects_reachable p \<Longrightarrow>
     maxRects_scanSizes p 0 sizes (zeroRect, MaxInt, MaxInt, - 1)
       = (bestNode, bestScore1, bestScore2, bestRectIndex) \<Longrightarrow>
     bestRectIndex \<noteq> - 1 \<Longrightarrow>
     maxRects_reachable (maxRects_place bestNode p)"
| inserted: "maxRects_reachable p \<Longrightarrow> maxRects_reachable (fst (maxRects_Insert sizes p))"

definition maxRects_settled :: "maxRects \<Rightarrow> bool" where
  "maxRects_settled p \<longleftrightarrow> newFreeRects p = [] \<and> noContainment (maxRects.freeRects p)"

lemma maxRects_place_settled:
  "maxRects_settled p \<Longrightarrow> maxRects_settled (maxRects_place node p)"
  using placeRect_noContainment[of p node]
  by (simp add: maxRects_settled_def maxRects_place_def Let_def)

lemma maxRects_reachable_settled: "maxRects_reachable p \<Longrightarrow> maxRects_settled p"
proof (induction rule: maxRects_reachable.induct)
  case (reset w h p0 p)
  then show ?case
    by (auto simp: maxRects_Reset_def maxRects_settled_def noContainment_def
        split: sum.splits)
next
  case (allowFlip p enabled)
  then show ?case by (simp add: maxRects_settled_def algorithmBase_AllowFlip_def)
next
  case (padding p pad)
  then show ?case by (simp add: maxRects_settled_def algorithmBase_Padding_def)
next
  case (placed p sizes bestNode bestScore1 bestScore2 bestRectIndex)
  then show ?case by (simp add: maxRects_place_settled)
next
  case (inserted p sizes)
  show ?case
    by (rule maxRects_Insert_rule[where P = "\<lambda>_. maxRects_settled"])
       (use inserted.IH maxRects_place_settled in simp_all)
qed

text \<open>An engine of 8 by 8 after \<^verbatim>\<open>Reset\<close>, and after the insertion of a size 3 by 2.\<close>

definition maxRectsFresh :: maxRects where
  "maxRectsFresh =
     maxRects_zero\<lparr>maxWidth := 8, maxHeight := 8, maxRects.freeRects := [NewRect 0 0 8 8]\<rparr>"

definition maxRectsUsed :: maxRects where
  "maxRectsUsed = fst (maxRects_Insert [NewSizeID 1 3 2] maxRectsFresh)"

lemma maxRectsFresh_Reset: "maxRects_Reset 8 8 maxRects_zero = Inr maxRectsFresh"
  by (simp add: maxRects_Reset_def algorithmBase_Reset_def maxRects_zero_def maxRectsFresh_def)

lemma maxRectsUsed_freeRects:
  "maxRects.freeRects maxRectsUsed = [NewRect 0 2 8 6, NewRect 3 0 5 8]"
  by code_simp

section \<open>Skyline: the profile after a placement\<close>

subsection \<open>The loop of \<^verbatim>\<open>addLevel\<close>\<close>




subsection \<open>The loop of \<^verbatim>\<open>mergeSkylines\<close>\<close>





subsection \<open>\<^verbatim>\<open>addLevel\<close> keeps the profile\<close>


lemma addWaste_skyline [simp]:
  "skyline (addWaste index w h y p wm) = skyline p"
  "maxWidth (addWaste index w h y p wm) = maxWidth p"
  by (simp_all add: addWaste_def Let_def)

lemma addLevel_maxWidth [simp]: "maxWidth (addLevel index rect p) = maxWidth p"
  by (simp add: addLevel_def mergeSkylines_def Let_def split: option.splits)


subsection \<open>\<^verbatim>\<open>Insert\<close> keeps the profile\<close>

lemma skyline_place_frame [simp]:
  "skyline (skyline_place idx node ident p) = skyline (addLevel idx node p)"
  "maxWidth (skyline_place idx node ident p) = maxWidth p"
  "padding (skyline_place idx node ident p) = padding p"
  by (simp_all add: skyline_place_def addLevel_def addWaste_def mergeSkylines_def Let_def
      split: option.splits)




subsection \<open>The states of a Skyline engine\<close>




subsection \<open>What a chain says about the list of nodes\<close>








section \<open>Skyline: the waste map is written and never read\<close>

subsection \<open>The search does not look at the waste map\<close>

lemma testFit_loop_wasteMap:
  "testFit_loop (p\<lparr>wasteMap := x\<rparr>) h widthLeft i y = testFit_loop p h widthLeft i y"
proof (induction p h widthLeft i y rule: testFit_loop.induct)
  case (1 p h widthLeft i y)
  show ?case
  proof (cases "widthLeft > 0 \<and> i < length (skyline p) \<and>
      \<not> max y (skylineNode.Y (skyline p ! i)) + h > maxHeight p")
    case True
    then have "testFit_loop (p\<lparr>wasteMap := x\<rparr>) h (widthLeft - skylineNode.Width (skyline p ! i))
        (i + 1) (max y (skylineNode.Y (skyline p ! i)))
      = testFit_loop p h (widthLeft - skylineNode.Width (skyline p ! i))
        (i + 1) (max y (skylineNode.Y (skyline p ! i)))"
      by (intro "1.IH") simp_all
    with True show ?thesis
      by (simp add: testFit_loop.simps[of p h widthLeft i y]
          testFit_loop.simps[of "p\<lparr>wasteMap := x\<rparr>" h widthLeft i y] Let_def)
  next
    case False
    then show ?thesis
      by (auto simp: testFit_loop.simps[of p h widthLeft i y]
          testFit_loop.simps[of "p\<lparr>wasteMap := x\<rparr>" h widthLeft i y] Let_def)
  qed
qed

lemma testFit_wasteMap: "testFit (p\<lparr>wasteMap := x\<rparr>) index w h = testFit p index w h"
  by (simp add: testFit_def testFit_loop_wasteMap Let_def)

lemma testFitWithWaste_wasteMap:
  "testFitWithWaste (p\<lparr>wasteMap := x\<rparr>) index w h = testFitWithWaste p index w h"
  by (simp add: testFitWithWaste_def testFit_wasteMap computeWaste_def
      split: sum.splits option.splits)

lemma findBottomLeft_update_wasteMap:
  "findBottomLeft_update (p\<lparr>wasteMap := x\<rparr>) i w h fl y acc = findBottomLeft_update p i w h fl y acc"
  by (simp add: findBottomLeft_update_def split: prod.splits)

lemma findMinWaste_update_wasteMap:
  "findMinWaste_update (p\<lparr>wasteMap := x\<rparr>) i w h fl yw acc = findMinWaste_update p i w h fl yw acc"
  by (simp add: findMinWaste_update_def split: prod.splits)

lemma findBottomLeft_loop_wasteMap:
  "findBottomLeft_loop (p\<lparr>wasteMap := x\<rparr>) w h i acc = findBottomLeft_loop p w h i acc"
proof (induction "length (skyline p) - i" arbitrary: i acc rule: less_induct)
  case less
  have ih: "findBottomLeft_loop (p\<lparr>wasteMap := x\<rparr>) w h (Suc i) a = findBottomLeft_loop p w h (Suc i) a"
    if "i < length (skyline p)" for a
    using that by (intro less.hyps) simp
  show ?case
    by (simp add: findBottomLeft_loop.simps[of p w h i acc]
        findBottomLeft_loop.simps[of "p\<lparr>wasteMap := x\<rparr>" w h i acc]
        testFit_wasteMap findBottomLeft_update_wasteMap ih Let_def
        split: sum.splits option.splits)
qed

lemma findMinWaste_loop_wasteMap:
  "findMinWaste_loop (p\<lparr>wasteMap := x\<rparr>) w h i acc = findMinWaste_loop p w h i acc"
proof (induction "length (skyline p) - i" arbitrary: i acc rule: less_induct)
  case less
  have ih: "findMinWaste_loop (p\<lparr>wasteMap := x\<rparr>) w h (Suc i) a = findMinWaste_loop p w h (Suc i) a"
    if "i < length (skyline p)" for a
    using that by (intro less.hyps) simp
  show ?case
    by (simp add: findMinWaste_loop.simps[of p w h i acc]
        findMinWaste_loop.simps[of "p\<lparr>wasteMap := x\<rparr>" w h i acc]
        testFitWithWaste_wasteMap findMinWaste_update_wasteMap ih Let_def
        split: sum.splits option.splits)
qed

lemma skyline_findNode_wasteMap:
  "skyline_findNode (p\<lparr>wasteMap := x\<rparr>) w h = skyline_findNode p w h"
  by (simp add: skyline_findNode_def findMinWaste_def findBottomLeft_def
      findBottomLeft_loop_wasteMap findMinWaste_loop_wasteMap)

lemma skyline_scanSizes_wasteMap:
  "skyline_scanSizes (p\<lparr>wasteMap := x\<rparr>) i sizes best = skyline_scanSizes p i sizes best"
proof (induction sizes arbitrary: i best)
  case Nil
  show ?case by simp
next
  case (Cons s rest)
  obtain bn b1 b2 bb bs where best: "best = (bn, b1, b2, bb, bs)" by (cases best) auto
  show ?case
    unfolding best
    by (simp add: skyline_findNode_wasteMap Cons.IH Let_def split: sum.splits prod.splits)
qed

subsection \<open>\<^verbatim>\<open>addLevel\<close> appends to the waste map\<close>

lemma addWaste_loop_append:
  "addWaste_loop sk rectLeft rectRight y index fr
     = fr @ addWaste_loop sk rectLeft rectRight y index []"
proof (induction "length sk - index" arbitrary: index fr rule: less_induct)
  case less
  show ?case
  proof (cases "index < length sk \<and> skylineNode.X (sk ! index) < rectRight \<and>
      \<not> skylineNode.X (sk ! index) + skylineNode.Width (sk ! index) \<le> rectLeft")
    case False
    then show ?thesis
      by (auto simp: addWaste_loop.simps[of sk rectLeft rectRight y index fr]
          addWaste_loop.simps[of sk rectLeft rectRight y index "[]"])
  next
    case True
    define waste where "waste = zeroRect\<lparr>X := skylineNode.X (sk ! index),
        Y := skylineNode.Y (sk ! index),
        Width := min rectRight (skylineNode.X (sk ! index) + skylineNode.Width (sk ! index))
                   - skylineNode.X (sk ! index),
        Height := y - skylineNode.Y (sk ! index)\<rparr>"
    from True have "index < length sk" by blast
    then have m: "length sk - (index + 1) < length sk - index" by simp
    have a: "addWaste_loop sk rectLeft rectRight y index fr
        = addWaste_loop sk rectLeft rectRight y (index + 1) (fr @ [waste])"
      using True
      by (simp add: addWaste_loop.simps[of sk rectLeft rectRight y index fr] Let_def waste_def)
    have b: "addWaste_loop sk rectLeft rectRight y index []
        = addWaste_loop sk rectLeft rectRight y (index + 1) [waste]"
      using True
      by (simp add: addWaste_loop.simps[of sk rectLeft rectRight y index "[]"] Let_def waste_def)
    show ?thesis
      unfolding a b
      by (subst less.hyps[OF m, of "fr @ [waste]"], subst less.hyps[OF m, of "[waste]"]) simp
  qed
qed

text \<open>The rectangles that \<^verbatim>\<open>addLevel\<close> adds to the waste map, when there is one.\<close>

definition addLevel_waste :: "nat \<Rightarrow> Rect \<Rightarrow> skylinePack \<Rightarrow> Rect list" where
  "addLevel_waste index rect p =
     addWaste_loop (skyline p) (skylineNode.X (skyline p ! index))
       (skylineNode.X (skyline p ! index) + Width rect) (Y rect) index []"

lemma addLevel_wasteMap:
  "wasteMap (addLevel index rect p) =
     (case wasteMap p of
        None \<Rightarrow> None
      | Some wm \<Rightarrow> Some (wm\<lparr>guillotinePack.freeRects :=
                              guillotinePack.freeRects wm @ addLevel_waste index rect p\<rparr>))"
  by (simp add: addLevel_def addWaste_def mergeSkylines_def Let_def addLevel_waste_def
      addWaste_loop_append[of _ _ _ _ _ "guillotinePack.freeRects _"] split: option.splits)

text \<open>
  Two engines have the same surface when they differ at most in what their waste maps
  hold, and both have a waste map or neither has.
\<close>

definition sameSurface :: "skylinePack \<Rightarrow> skylinePack \<Rightarrow> bool" where
  "sameSurface p q \<longleftrightarrow>
     q\<lparr>wasteMap := None\<rparr> = p\<lparr>wasteMap := None\<rparr> \<and> (wasteMap p = None) = (wasteMap q = None)"

lemma sameSurface_update: "sameSurface p q \<Longrightarrow> q = p\<lparr>wasteMap := wasteMap q\<rparr>"
proof -
  assume "sameSurface p q"
  then have "q\<lparr>wasteMap := None\<rparr> = p\<lparr>wasteMap := None\<rparr>" by (simp add: sameSurface_def)
  then have "(q\<lparr>wasteMap := None\<rparr>)\<lparr>wasteMap := wasteMap q\<rparr>
      = (p\<lparr>wasteMap := None\<rparr>)\<lparr>wasteMap := wasteMap q\<rparr>" by simp
  then show ?thesis by simp
qed

lemma sameSurface_fields:
  assumes "sameSurface p q"
  shows "packed q = packed p" "skyline q = skyline p" "padding q = padding p"
    "maxWidth q = maxWidth p" "maxHeight q = maxHeight p"
  by (subst sameSurface_update[OF assms], simp)+

lemma addLevel_sameSurface:
  assumes "sameSurface p q"
  shows "sameSurface (addLevel index rect p) (addLevel index rect q)"
proof -
  note q = sameSurface_update[OF assms]
  have w: "(wasteMap p = None) = (wasteMap q = None)" using assms by (simp add: sameSurface_def)
  have "(addLevel index rect (p\<lparr>wasteMap := x\<rparr>))\<lparr>wasteMap := None\<rparr>
      = (addLevel index rect p)\<lparr>wasteMap := None\<rparr>" for x
    by (simp add: addLevel_def addWaste_def mergeSkylines_def Let_def split: option.splits)
  from this[of "wasteMap q"] q
  have "(addLevel index rect q)\<lparr>wasteMap := None\<rparr> = (addLevel index rect p)\<lparr>wasteMap := None\<rparr>"
    by simp
  moreover have "(wasteMap (addLevel index rect p) = None) = (wasteMap (addLevel index rect q) = None)"
    using w by (cases "wasteMap p"; cases "wasteMap q") (simp_all add: addLevel_wasteMap)
  ultimately show ?thesis by (simp add: sameSurface_def)
qed

lemma skyline_place_sameSurface:
  assumes "sameSurface p q"
  shows "sameSurface (skyline_place idx node ident p) (skyline_place idx node ident q)"
proof -
  from addLevel_sameSurface[OF assms, of idx node]
  have a: "(addLevel idx node q)\<lparr>wasteMap := None\<rparr> = (addLevel idx node p)\<lparr>wasteMap := None\<rparr>"
    and b: "(wasteMap (addLevel idx node p) = None) = (wasteMap (addLevel idx node q) = None)"
    by (simp_all add: sameSurface_def)
  from sameSurface_update[OF addLevel_sameSurface[OF assms, of idx node]]
  have c: "addLevel idx node q = (addLevel idx node p)\<lparr>wasteMap := wasteMap (addLevel idx node q)\<rparr>" .
  show ?thesis
    unfolding sameSurface_def skyline_place_def Let_def
    by (subst (1 2 3 4) c) (simp add: b)
qed

lemma skyline_place_wasteMap:
  "wasteMap (skyline_place idx node ident p) = wasteMap (addLevel idx node p)"
  by (simp add: skyline_place_def Let_def)

subsection \<open>\<^verbatim>\<open>Insert\<close> on two engines with the same surface\<close>

lemma skyline_Insert_unfold:
  "skyline_Insert sizes p =
     (if length sizes > 0 then
        (case skyline_scanSizes p 0 sizes (zeroRect, MaxInt, MaxInt, - 1, - 1) of
           Inl e \<Rightarrow> Inl e
         | Inr (bestNode, bestScore1, bestScore2, bestBinIndex, bestSizeIndex) \<Rightarrow>
             if bestSizeIndex = - 1 then Inr (p, sizes)
             else skyline_Insert (slices_Delete sizes (nat bestSizeIndex) (nat bestSizeIndex + 1))
                    (skyline_place (nat bestBinIndex) bestNode (ID (sizes ! nat bestSizeIndex)) p))
      else Inr (p, sizes))"
  by (subst skyline_Insert.simps)
     (simp add: skyline_place_def Let_def split: sum.splits prod.splits)

lemma skyline_Insert_sameSurface:
  assumes "sameSurface p q"
  shows "rel_sum (=) (\<lambda>(p1, r1) (q1, r2). sameSurface p1 q1 \<and> r1 = r2)
           (skyline_Insert sizes p) (skyline_Insert sizes q)"
  using assms
proof (induction "length sizes" arbitrary: sizes p q rule: less_induct)
  case less
  note q = sameSurface_update[OF less.prems]
  have scan: "skyline_scanSizes q 0 sizes b = skyline_scanSizes p 0 sizes b" for b
    by (subst q) (rule skyline_scanSizes_wasteMap)
  show ?case
  proof (cases "length sizes > 0")
    case False
    then have "skyline_Insert sizes p = Inr (p, sizes)" "skyline_Insert sizes q = Inr (q, sizes)"
      by (subst skyline_Insert_unfold, simp)+
    with less.prems show ?thesis by simp
  next
    case True
    show ?thesis
    proof (cases "skyline_scanSizes p 0 sizes (zeroRect, MaxInt, MaxInt, - 1, - 1)")
      case (Inl e)
      with True scan show ?thesis
        by (simp add: skyline_Insert_unfold[of sizes p] skyline_Insert_unfold[of sizes q])
    next
      case (Inr r)
      obtain node s1 s2 bb k where r: "r = (node, s1, s2, bb, k)" by (cases r) auto
      show ?thesis
      proof (cases "k = - 1")
        case True
        with \<open>length sizes > 0\<close> Inr r scan less.prems show ?thesis
          by (simp add: skyline_Insert_unfold[of sizes p] skyline_Insert_unfold[of sizes q])
      next
        case False
        from skyline_scanSizes_index[OF Inr[unfolded r]] False
        have k: "nat k < length sizes" by auto
        let ?ss = "slices_Delete sizes (nat k) (nat k + 1)"
        have l: "length ?ss < length sizes" using k by (simp add: slices_Delete_def)
        have s: "sameSurface (skyline_place (nat bb) node (ID (sizes ! nat k)) p)
                   (skyline_place (nat bb) node (ID (sizes ! nat k)) q)"
          using less.prems by (rule skyline_place_sameSurface)
        have a: "skyline_Insert sizes p
            = skyline_Insert ?ss (skyline_place (nat bb) node (ID (sizes ! nat k)) p)"
          using True Inr r False by (simp add: skyline_Insert_unfold[of sizes p])
        have b: "skyline_Insert sizes q
            = skyline_Insert ?ss (skyline_place (nat bb) node (ID (sizes ! nat k)) q)"
          using True Inr r False scan by (simp add: skyline_Insert_unfold[of sizes q])
        show ?thesis
          unfolding a b by (rule less.hyps[OF l s])
      qed
    qed
  qed
qed

lemma skyline_Insert_waste_appended:
  assumes "wasteMap p = Some wm" and "skyline_Insert sizes p = Inr (p1, rest)"
  shows "\<exists>ws. wasteMap p1 = Some (wm\<lparr>guillotinePack.freeRects := guillotinePack.freeRects wm @ ws\<rparr>)"
proof -
  let ?P = "\<lambda>(ss :: Size list) q. \<exists>ws. wasteMap q
      = Some (wm\<lparr>guillotinePack.freeRects := guillotinePack.freeRects wm @ ws\<rparr>)"
  have init: "?P sizes p"
    by (rule exI[of _ "[]"]) (simp add: assms(1))
  have step: "?P (slices_Delete ss k (k + 1)) (skyline_place idx node (ID (ss ! k)) q)"
    if "?P ss q" for ss :: "Size list" and q :: skylinePack and node :: Rect and idx k :: nat
  proof -
    from that obtain ws where "wasteMap q
      = Some (wm\<lparr>guillotinePack.freeRects := guillotinePack.freeRects wm @ ws\<rparr>)" by blast
    then have "wasteMap (skyline_place idx node (ID (ss ! k)) q)
      = Some (wm\<lparr>guillotinePack.freeRects :=
                   guillotinePack.freeRects wm @ (ws @ addLevel_waste idx node q)\<rparr>)"
      by (simp add: skyline_place_wasteMap addLevel_wasteMap)
    then show ?thesis by blast
  qed
  from skyline_Insert_rule[where P = ?P, OF init step] assms(2)
  show ?thesis by blast
qed

text \<open>
  An engine of 8 by 8 made by \<^verbatim>\<open>newSkyline\<close> for \<^verbatim>\<open>MinWaste\<close>, with its waste map, and
  two sizes of which the second to be placed leaves waste under it.
\<close>

definition wasteMapFresh :: guillotinePack where
  "wasteMapFresh =
     guillotine_zero\<lparr>maxWidth := 8, maxHeight := 8, Merge := True,
       guillotinePack.freeRects := [NewRect 0 0 8 8]\<rparr>"

definition skylineWasteFresh :: skylinePack where
  "skylineWasteFresh =
     skyline_zero\<lparr>maxWidth := 8, maxHeight := 8, levelSelect := MinWaste,
       skyline := [\<lparr>skylineNode.X = 0, skylineNode.Y = 0, skylineNode.Width = 8\<rparr>],
       wasteMap := Some wasteMapFresh\<rparr>"

lemma skylineWasteFresh_new: "newSkyline 8 8 SkylineMinWaste = Inr skylineWasteFresh"
  by (simp add: newSkyline_def skyline_Reset_def algorithmBase_Reset_def skyline_zero_def
      skylineWasteFresh_def wasteMapFresh_def SkylineMinWaste_def heuristic_defs Let_def
      newGuillotine_def guillotine_Reset_def guillotine_zero_def)

section \<open>Validation of the Guillotine presets\<close>

text \<open>
  C3. The claim: every Guillotine heuristic whose bin method is one of BSSF, BLSF, BAF, WAF,
  WSSF, WLSF, BottomLeft, ContactPoint and whose split method is one of the six split
  methods validates (\<^verbatim>\<open>Validate\<close> returns nil), in particular the three Worst* fits.
  The code does otherwise: the presets \<^verbatim>\<open>GuillotineWAF\<close>, \<^verbatim>\<open>GuillotineWSSF\<close> and
  \<^verbatim>\<open>GuillotineWLSF\<close>, which the constants' own documentation marks as valid with
  Guillotine, fall into the default branch of the bin switch and are rejected with
  \<^verbatim>\<open>splitErr\<close>.
\<close>

theorem Validate_guillotine_worst_fits_rejected:
  "Validate GuillotineWAF = Some splitErr \<and>
   Validate GuillotineWSSF = Some splitErr \<and>
   Validate GuillotineWLSF = Some splitErr"
  by (simp add: Validate_def GuillotineWAF_def GuillotineWSSF_def GuillotineWLSF_def
      heuristic_defs)

section \<open>Merging of free rectangles in the Guillotine engine\<close>

text \<open>
  C4. The claim: when the free list holds two rectangles that share a full edge (same
  width and \<open>X\<close> with abutting \<open>Y\<close> extents, or same height and \<open>Y\<close> with abutting
  \<open>X\<close> extents), \<^verbatim>\<open>mergeFreeList\<close> replaces the pair by one rectangle covering both.
  The code does not: on the free list \<open>[(0,0,10,5), (0,5,10,5)]\<close> (vertically abutting)
  and on \<open>[(0,0,5,10), (5,0,5,10)]\<close> (horizontally abutting) it returns the list
  unchanged, because each comparison reads \<^verbatim>\<open>p.freeRects[i]\<close> on both sides and never
  looks at \<^verbatim>\<open>p.freeRects[j]\<close>.
\<close>

theorem mergeFreeList_leaves_abutting_pair:
  "guillotinePack.freeRects (mergeFreeList (p\<lparr>guillotinePack.freeRects := [NewRect 0 0 10 5, NewRect 0 5 10 5]\<rparr>))
     = [NewRect 0 0 10 5, NewRect 0 5 10 5] \<and>
   guillotinePack.freeRects (mergeFreeList (p\<lparr>guillotinePack.freeRects := [NewRect 0 0 5 10, NewRect 5 0 5 10]\<rparr>))
     = [NewRect 0 0 5 10, NewRect 5 0 5 10]"
  by (simp add: mergeFreeList_def mergeFreeList_outer_id NewRect_def)

section \<open>Padding and the size of the packed rectangles\<close>

text \<open>
  C2. The claim: a packed rectangle has the ID and the width and height of the size it was
  made from (swapped when flipped), for every padding and every position, including
  \<open>X = 0\<close> and \<open>Y = 0\<close>. The code does otherwise. \<^verbatim>\<open>padSize\<close> adds the padding once to each
  dimension, and \<^verbatim>\<open>unpadRect\<close> takes it off twice on an axis whose coordinate is 0: in a
  100 by 100 MaxRects bin with padding 2, the size 40 by 40 with ID 1 is packed as the
  rectangle 38 by 38 at (2, 2). The Guillotine engine inflates only the loop's copy of the
  size and places the size as passed in, so \<^verbatim>\<open>unpadRect\<close> shrinks every rectangle: the
  same input gives 36 by 36 at (2, 2), and a second 40 by 40, placed below it at a
  non-zero \<open>Y\<close>, is packed as 36 by 38.
\<close>

theorem padding_shrinks_packed_rect:
  "map_sum id (\<lambda>m. packed (fst (maxRects_Insert [NewSizeID 1 40 40] (algorithmBase_Padding 2 m))))
       (newMaxRects 100 100 MaxRectsBSSF)
     = Inr [\<lparr>Width = 38, Height = 38, ID = 1, X = 2, Y = 2, Flipped = False\<rparr>] \<and>
   map_sum id (\<lambda>g. packed (fst (guillotine_Insert 2 [NewSizeID 1 40 40, NewSizeID 2 40 40] g)))
       (newGuillotine 100 100 GuillotineBAF)
     = Inr [\<lparr>Width = 36, Height = 36, ID = 1, X = 2, Y = 2, Flipped = False\<rparr>,
            \<lparr>Width = 36, Height = 38, ID = 2, X = 2, Y = 40, Flipped = False\<rparr>]"
  by code_simp

section \<open>Pack\<close>



section \<open>RepackAll on a packer with nothing packed\<close>

text \<open>
  C10. The claim has two parts. The first holds: on a packer whose packed list is empty,
  \<^verbatim>\<open>Size\<close> returns \<open>{0, 0}\<close>, the algorithm's \<^verbatim>\<open>Reset\<close> panics on a width or height that
  is not positive, and so \<^verbatim>\<open>RepackAll\<close> panics. The second part, that a padding of at
  least 1 avoids the panic by inflating \<^verbatim>\<open>Size\<close>, does not: the padding is added inside
  the loop over the packed rectangles, which does not run when there are none. A new
  packer with \<^verbatim>\<open>Padding = 1\<close> and nothing packed panics in \<^verbatim>\<open>RepackAll\<close>.
\<close>

theorem RepackAll_padding_does_not_avoid_panic:
  "map_sum id (\<lambda>p. (Padding (p\<lparr>Padding := 1\<rparr>), Packer_Rects (p\<lparr>Padding := 1\<rparr>),
                      Packer_Size (p\<lparr>Padding := 1\<rparr>),
                      map_sum id (\<lambda>r. ()) (RepackAll (p\<lparr>Padding := 1\<rparr>))))
     (NewPacker 10 10 MaxRectsBSSF)
   = Inr (1, [], NewSize 0 0, Inl ResetPanic)"
  by code_simp

text \<open>
  C10, amended: on a packer whose packed list is empty, whatever its padding, \<^verbatim>\<open>Size\<close>
  returns \<open>{0, 0}\<close>, \<^verbatim>\<open>Reset\<close> panics on every width or height that is not positive, and
  \<^verbatim>\<open>RepackAll\<close> panics; it is free of this panic only when at least one rectangle is
  packed.
\<close>

theorem RepackAll_panics_on_empty_packed:
  "algo_Rects (algo p) = [] \<Longrightarrow>
   Packer_Size p = NewSize 0 0 \<and>
   (\<forall>w h a. w \<le> 0 \<or> h \<le> 0 \<longrightarrow> algo_Reset w h a = Inl ResetPanic) \<and>
   RepackAll p = Inl ResetPanic"
  by (simp add: RepackAll_def Packer_Size_no_rects algo_Reset_nonpositive NewSize_def)

theorem RepackAll_panics_on_empty_packed_witness:
  "algo_Rects (algo (stagedPacker\<lparr>Padding := 3\<rparr>)) = [] \<and>
   Packer_Size (stagedPacker\<lparr>Padding := 3\<rparr>) = NewSize 0 0 \<and>
   algo_Reset 0 0 (algo stagedPacker) = Inl ResetPanic \<and>
   RepackAll (stagedPacker\<lparr>Padding := 3\<rparr>) = Inl ResetPanic"
proof -
  have empty: "algo_Rects (algo (stagedPacker\<lparr>Padding := 3\<rparr>)) = []"
    by (simp add: stagedPacker_def guillotine_zero_def)
  from RepackAll_panics_on_empty_packed[OF empty] empty show ?thesis
    by simp
qed

section \<open>RepackAll and the number of packed rectangles\<close>

text \<open>
  C9. The claim: \<^verbatim>\<open>RepackAll\<close> on a packer with at least one packed rectangle leaves at
  least as many rectangles packed as before. The code resets the algorithm to the
  current bounding size and packs again, sorted, with the same greedy choice, and that
  can fit fewer. \<^verbatim>\<open>NewPacker(4, 3, GuillotineBAF)\<close> with the sizes 2 by 2, 1 by 3, 1 by 1
  and 1 by 1 packs all four into the bounding box 3 by 3 (the first cut, in a bin 4 wide,
  leaves a column of height 3 for the 1 by 3). \<^verbatim>\<open>RepackAll\<close> resets to 3 by 3, where the
  first cut is made the other way; the 1 by 3 no longer fits, three rectangles are
  packed and \<^verbatim>\<open>RepackAll\<close> returns false.
\<close>

theorem RepackAll_tight_box_packs_fewer:
  "map_sum id (\<lambda>(q, ok). (length (Packer_Rects q), ok)) (Pack stagedPacker) = Inr (4, True) \<and>
   length (Packer_Rects packedPacker) = 4 \<and>
   Packer_Size packedPacker = NewSize 3 3 \<and>
   map_sum id (\<lambda>(q, ok). (length (Packer_Rects q), unpacked q, ok)) (RepackAll packedPacker)
     = Inr (3, [NewSizeID 2 1 3], False)"
  by code_simp

text \<open>
  C9, amended: whenever \<^verbatim>\<open>RepackAll\<close> returns, the packed rectangles and the staged
  sizes after the call are together as many as before it; it returns true exactly when
  the staging list is left empty, and then at least as many rectangles are packed as
  before. When it returns false the sizes that no longer fit stay in the staging list.
\<close>

theorem RepackAll_conserves_sizes:
  "RepackAll p = Inr (p1, ok) \<Longrightarrow>
   length (Packer_Rects p1) + length (unpacked p1)
     = length (Packer_Rects p) + length (unpacked p) \<and>
   (ok \<longleftrightarrow> unpacked p1 = []) \<and>
   (ok \<longrightarrow> length (Packer_Rects p) \<le> length (Packer_Rects p1))"
  by (rule RepackAll_count)

theorem RepackAll_conserves_sizes_witness:
  "length (Packer_Rects onePacked) = 1 \<and> unpacked onePacked = [] \<and>
   (\<exists>p1. RepackAll onePacked = Inr (p1, True) \<and>
      length (Packer_Rects p1) + length (unpacked p1) = 1 \<and> unpacked p1 = [] \<and>
      1 \<le> length (Packer_Rects p1)) \<and>
   (\<exists>p2. RepackAll packedPacker = Inr (p2, False) \<and>
      length (Packer_Rects p2) + length (unpacked p2) = 4 \<and> unpacked p2 \<noteq> [])"
proof -
  have one: "length (Packer_Rects onePacked) = 1" "unpacked onePacked = []"
    by code_simp+
  have four: "length (Packer_Rects packedPacker) = 4" "unpacked packedPacker = []"
    by code_simp+
  have "map_sum id snd (RepackAll onePacked) = Inr True"
    by code_simp
  then obtain p1 where r1: "RepackAll onePacked = Inr (p1, True)"
    by (cases "RepackAll onePacked") auto
  have "map_sum id snd (RepackAll packedPacker) = Inr False"
    by code_simp
  then obtain p2 where r2: "RepackAll packedPacker = Inr (p2, False)"
    by (cases "RepackAll packedPacker") auto
  from RepackAll_conserves_sizes[OF r1] RepackAll_conserves_sizes[OF r2] one four r1 r2
  show ?thesis by auto
qed

section \<open>The free list of MaxRects\<close>

text \<open>
  C5. In every state of a MaxRects engine from \<^verbatim>\<open>Reset\<close> on, after each round of \<^verbatim>\<open>Insert\<close>
  (\<^verbatim>\<open>placeRect\<close> with its \<^verbatim>\<open>pruneFreeList\<close>) as after the whole call, no rectangle of the
  free list is contained in another rectangle of the list.
\<close>

theorem maxRects_free_list_no_containment:
  assumes "maxRects_reachable p"
    and "i < length (maxRects.freeRects p)" and "j < length (maxRects.freeRects p)" and "i \<noteq> j"
  shows "\<not> ContainsRect (maxRects.freeRects p ! i) (maxRects.freeRects p ! j)"
  using maxRects_reachable_settled[OF assms(1)] assms(2-4)
  by (simp add: maxRects_settled_def noContainment_def)

theorem maxRects_free_list_no_containment_witness:
  "maxRects_reachable maxRectsUsed \<and>
   maxRects.freeRects maxRectsUsed = [NewRect 0 2 8 6, NewRect 3 0 5 8] \<and>
   \<not> ContainsRect (maxRects.freeRects maxRectsUsed ! 0) (maxRects.freeRects maxRectsUsed ! 1) \<and>
   \<not> ContainsRect (maxRects.freeRects maxRectsUsed ! 1) (maxRects.freeRects maxRectsUsed ! 0)"
proof -
  have r: "maxRects_reachable maxRectsUsed"
    unfolding maxRectsUsed_def
    by (intro maxRects_reachable.inserted maxRects_reachable.reset[OF maxRectsFresh_Reset])
  have l: "0 < length (maxRects.freeRects maxRectsUsed)" "1 < length (maxRects.freeRects maxRectsUsed)"
    by (simp_all add: maxRectsUsed_freeRects)
  have "(0::nat) \<noteq> 1" "(1::nat) \<noteq> 0" by simp_all
  from maxRects_free_list_no_containment[OF r l(1) l(2) this(1)]
    maxRects_free_list_no_containment[OF r l(2) l(1) this(2)] r maxRectsUsed_freeRects
  show ?thesis by blast
qed

section \<open>The profile of the Skyline engine\<close>



section \<open>The waste map of the Skyline engine\<close>

text \<open>
  C8. \<^verbatim>\<open>Insert\<close> of a Skyline engine with a waste map does not read the map: with any
  other free list in the waste map, the same sizes give the same packed rectangles, the
  same skyline and the same sizes returned (or the same panic); and the free list of the
  waste map after \<^verbatim>\<open>Insert\<close> is the one before with rectangles appended.
\<close>

theorem skyline_Insert_ignores_waste_map:
  assumes "wasteMap p = Some wm"
  shows "map_sum id (\<lambda>(p1, rest). (packed p1, skyline p1, rest))
           (skyline_Insert sizes (p\<lparr>wasteMap := Some (wm\<lparr>guillotinePack.freeRects := fr\<rparr>)\<rparr>))
         = map_sum id (\<lambda>(p1, rest). (packed p1, skyline p1, rest)) (skyline_Insert sizes p) \<and>
         (\<forall>p1 rest. skyline_Insert sizes p = Inr (p1, rest) \<longrightarrow>
            (\<exists>ws. wasteMap p1
               = Some (wm\<lparr>guillotinePack.freeRects := guillotinePack.freeRects wm @ ws\<rparr>)))"
proof -
  let ?q = "p\<lparr>wasteMap := Some (wm\<lparr>guillotinePack.freeRects := fr\<rparr>)\<rparr>"
  have "sameSurface p ?q" by (simp add: sameSurface_def assms)
  from skyline_Insert_sameSurface[OF this, of sizes]
  have "map_sum id (\<lambda>(p1, rest). (packed p1, skyline p1, rest)) (skyline_Insert sizes ?q)
      = map_sum id (\<lambda>(p1, rest). (packed p1, skyline p1, rest)) (skyline_Insert sizes p)"
    by (cases "skyline_Insert sizes p"; cases "skyline_Insert sizes ?q")
       (auto simp: sameSurface_fields)
  with skyline_Insert_waste_appended[OF assms] show ?thesis by blast
qed

theorem skyline_Insert_ignores_waste_map_witness:
  "wasteMap skylineWasteFresh = Some wasteMapFresh \<and>
   map_sum id (\<lambda>(p1, rest). (packed p1, skyline p1, rest))
     (skyline_Insert [NewSizeID 1 5 2, NewSizeID 2 4 1]
        (skylineWasteFresh\<lparr>wasteMap :=
           Some (wasteMapFresh\<lparr>guillotinePack.freeRects := [NewRect 6 6 1 1]\<rparr>)\<rparr>))
     = Inr ([NewRect 0 0 4 1\<lparr>ID := 2\<rparr>, NewRect 0 1 5 2\<lparr>ID := 1\<rparr>],
            [\<lparr>skylineNode.X = 0, skylineNode.Y = 3, skylineNode.Width = 5\<rparr>,
             \<lparr>skylineNode.X = 5, skylineNode.Y = 0, skylineNode.Width = 3\<rparr>], []) \<and>
   map_sum id (\<lambda>(p1, rest). (packed p1, skyline p1, rest))
     (skyline_Insert [NewSizeID 1 5 2, NewSizeID 2 4 1] skylineWasteFresh)
     = Inr ([NewRect 0 0 4 1\<lparr>ID := 2\<rparr>, NewRect 0 1 5 2\<lparr>ID := 1\<rparr>],
            [\<lparr>skylineNode.X = 0, skylineNode.Y = 3, skylineNode.Width = 5\<rparr>,
             \<lparr>skylineNode.X = 5, skylineNode.Y = 0, skylineNode.Width = 3\<rparr>], []) \<and>
   (\<exists>p1 rest ws. skyline_Insert [NewSizeID 1 5 2, NewSizeID 2 4 1] skylineWasteFresh = Inr (p1, rest) \<and>
      wasteMap p1 = Some (wasteMapFresh\<lparr>guillotinePack.freeRects :=
                            guillotinePack.freeRects wasteMapFresh @ ws\<rparr>))"
proof -
  have w: "wasteMap skylineWasteFresh = Some wasteMapFresh"
    by (simp add: skylineWasteFresh_def)
  have other: "map_sum id (\<lambda>(p1, rest). (packed p1, skyline p1, rest))
     (skyline_Insert [NewSizeID 1 5 2, NewSizeID 2 4 1]
        (skylineWasteFresh\<lparr>wasteMap :=
           Some (wasteMapFresh\<lparr>guillotinePack.freeRects := [NewRect 6 6 1 1]\<rparr>)\<rparr>))
     = Inr ([NewRect 0 0 4 1\<lparr>ID := 2\<rparr>, NewRect 0 1 5 2\<lparr>ID := 1\<rparr>],
            [\<lparr>skylineNode.X = 0, skylineNode.Y = 3, skylineNode.Width = 5\<rparr>,
             \<lparr>skylineNode.X = 5, skylineNode.Y = 0, skylineNode.Width = 3\<rparr>], [])"
    by code_simp
  note t = skyline_Insert_ignores_waste_map[OF w, of "[NewSizeID 1 5 2, NewSizeID 2 4 1]"
      "[NewRect 6 6 1 1]"]
  from t other have base: "map_sum id (\<lambda>(p1, rest). (packed p1, skyline p1, rest))
     (skyline_Insert [NewSizeID 1 5 2, NewSizeID 2 4 1] skylineWasteFresh)
     = Inr ([NewRect 0 0 4 1\<lparr>ID := 2\<rparr>, NewRect 0 1 5 2\<lparr>ID := 1\<rparr>],
            [\<lparr>skylineNode.X = 0, skylineNode.Y = 3, skylineNode.Width = 5\<rparr>,
             \<lparr>skylineNode.X = 5, skylineNode.Y = 0, skylineNode.Width = 3\<rparr>], [])"
    by simp
  then obtain p1 rest where
    r: "skyline_Insert [NewSizeID 1 5 2, NewSizeID 2 4 1] skylineWasteFresh = Inr (p1, rest)"
    by (cases "skyline_Insert [NewSizeID 1 5 2, NewSizeID 2 4 1] skylineWasteFresh") auto
  with t have "\<exists>ws. wasteMap p1 = Some (wasteMapFresh\<lparr>guillotinePack.freeRects :=
                            guillotinePack.freeRects wasteMapFresh @ ws\<rparr>)"
    by blast
  with w other base r show ?thesis by blast
qed

end
